theory Spec2Isabelle
  imports Main "HOL-Library.AList"
begin

section \<open>Python values used by both modules\<close>

text \<open>
  A Python \<^verbatim>\<open>str\<close> is a \<open>string\<close>; each \<open>char\<close> stands for one code point below 256
  (SSDP headers and request paths are ASCII). A \<^verbatim>\<open>dict\<close> is an association list with
  distinct keys in insertion order: \<^verbatim>\<open>d[k] = v\<close> is \<open>AList.update k v\<close> (in place when the
  key is present, appended otherwise), \<^verbatim>\<open>del d[k]\<close> is \<open>AList.delete k\<close>, \<^verbatim>\<open>k in d\<close> is
  membership in \<open>dict_keys\<close>, \<^verbatim>\<open>len(d)\<close> is \<open>length\<close>.
\<close>

definition dict_keys :: "('k \<times> 'v) list \<Rightarrow> 'k list" where
  "dict_keys d = map fst d"

definition py_dict :: "('k \<times> 'v) list \<Rightarrow> ('k \<times> 'v) list" where
  "py_dict kvs = foldl (\<lambda>d (k, v). AList.update k v d) [] kvs"

text \<open>\<^verbatim>\<open>str.isspace\<close> on the code points below 256, the set that \<^verbatim>\<open>str.strip()\<close> removes.\<close>

definition py_isspace :: "char \<Rightarrow> bool" where
  "py_isspace c = (c \<in> {CHR 0x09, CHR 0x0A, CHR 0x0B, CHR 0x0C, CHR 0x0D,
                         CHR 0x1C, CHR 0x1D, CHR 0x1E, CHR 0x1F, CHR 0x20,
                         CHR 0x85, CHR 0xA0})"

definition py_strip :: "string \<Rightarrow> string" where
  "py_strip s = rev (dropWhile py_isspace (rev (dropWhile py_isspace s)))"

text \<open>\<^verbatim>\<open>str.lower\<close> on the code points below 256: A-Z and the Latin-1 capitals move by 32.\<close>

definition py_lower_char :: "char \<Rightarrow> char" where
  "py_lower_char c =
     (let n = (of_char c :: nat)
      in if (65 \<le> n \<and> n \<le> 90) \<or> (192 \<le> n \<and> n \<le> 222 \<and> n \<noteq> 215)
         then char_of (n + 32) else c)"

definition py_lower :: "string \<Rightarrow> string" where
  "py_lower s = map py_lower_char s"


section \<open>plugins/dlna/ssdp: header map and device id\<close>

text \<open>
  \<^verbatim>\<open>findall(r"(?P<name>.*?):(?P<value>.*?)\n", header)\<close>. The dot matches every character
  but the line feed. At one start position the lazy \<^verbatim>\<open>.*?\<close> grows until a colon follows
  (\<open>lazy_until_colon\<close>: stopped by a line feed or the end of the text), then the second lazy
  group grows until a line feed follows (\<open>lazy_until_newline\<close>). A longer name cannot succeed
  where the shortest one fails, since the value only fails when no line feed is left.
  \<open>findall_header\<close> is the scan of \<^verbatim>\<open>findall\<close>: after a match it goes on behind the match,
  after a failure one character further.
\<close>

fun lazy_until_colon :: "string \<Rightarrow> (string \<times> string) option" where
  "lazy_until_colon [] = None"
| "lazy_until_colon (c # cs) =
     (if c = CHR '':'' then Some ([], cs)
      else if c = CHR 0x0A then None
      else map_option (\<lambda>(n, r). (c # n, r)) (lazy_until_colon cs))"

fun lazy_until_newline :: "string \<Rightarrow> (string \<times> string) option" where
  "lazy_until_newline [] = None"
| "lazy_until_newline (c # cs) =
     (if c = CHR 0x0A then Some ([], cs)
      else map_option (\<lambda>(v, r). (c # v, r)) (lazy_until_newline cs))"

definition header_match_at :: "string \<Rightarrow> (string \<times> string \<times> string) option" where
  "header_match_at s =
     (case lazy_until_colon s of
        None \<Rightarrow> None
      | Some (n, r) \<Rightarrow>
          (case lazy_until_newline r of
             None \<Rightarrow> None
           | Some (v, rest) \<Rightarrow> Some (n, v, rest)))"

function findall_header :: "string \<Rightarrow> (string \<times> string) list" where
  "findall_header s =
     (case header_match_at s of
        Some (n, v, rest) \<Rightarrow> (n, v) # findall_header rest
      | None \<Rightarrow> (case s of [] \<Rightarrow> [] | c # cs \<Rightarrow> findall_header cs))"
  by pat_completeness auto
termination
proof (relation "measure length")
  show "wf (measure length)" by simp
next
  fix s :: string and m n p v rest
  assume m: "header_match_at s = Some m" "(n, p) = m" "(v, rest) = p"
  have colon: "lazy_until_colon t = Some (a, r) \<Longrightarrow> length r < length t" for t a r
    by (induction t arbitrary: a r) (auto split: if_splits)
  have nl: "lazy_until_newline t = Some (a, r) \<Longrightarrow> length r < length t" for t a r
    by (induction t arbitrary: a r) (auto split: if_splits)
  from m obtain r where "lazy_until_colon s = Some (n, r)" "lazy_until_newline r = Some (v, rest)"
    by (auto simp: header_match_at_def split: option.splits)
  then have "length rest < length s"
    using colon nl by (meson less_trans)
  then show "(rest, s) \<in> measure length" by simp
next
  fix s :: string and c cs
  assume "header_match_at s = None" "s = c # cs"
  then show "(cs, s) \<in> measure length" by simp
qed

declare findall_header.simps [simp del]

text \<open>
  \<^verbatim>\<open>_get_header_map\<close>: the matches go through \<^verbatim>\<open>dict\<close>, then every item is rebuilt with
  the key stripped and lower-cased and the value stripped.
\<close>

definition get_header_map :: "string \<Rightarrow> (string \<times> string) list" where
  "get_header_map header =
     (let header1 = findall_header header
      in py_dict (map (\<lambda>(k, v). (py_lower (py_strip k), py_strip v)) (py_dict header1)))"

text \<open>
  \<^verbatim>\<open>search("(uuid:.*?)::(.*)", value, RegexFlag.IGNORECASE)\<close>. \<open>lazy_until_dcolon\<close> is the lazy
  \<^verbatim>\<open>.*?\<close> followed by two colons; the greedy last group matches whatever is left of the
  line. Below code point 256 the letters matching \<^verbatim>\<open>u\<close>, \<^verbatim>\<open>i\<close>, \<^verbatim>\<open>d\<close> without regard to
  case are those that lower-case to them. \<open>search_uuid\<close> returns group 1 of the leftmost
  match.
\<close>

fun lazy_until_dcolon :: "string \<Rightarrow> string option" where
  "lazy_until_dcolon [] = None"
| "lazy_until_dcolon (c # cs) =
     (if c = CHR '':'' \<and> take 1 cs = '':'' then Some []
      else if c = CHR 0x0A then None
      else map_option ((#) c) (lazy_until_dcolon cs))"

definition uuid_match_at :: "string \<Rightarrow> string option" where
  "uuid_match_at s =
     (if py_lower (take 5 s) = ''uuid:''
      then map_option ((@) (take 5 s)) (lazy_until_dcolon (drop 5 s))
      else None)"

fun search_uuid :: "string \<Rightarrow> string option" where
  "search_uuid [] = None"
| "search_uuid (c # cs) =
     (case uuid_match_at (c # cs) of
        Some g \<Rightarrow> Some g
      | None \<Rightarrow> search_uuid cs)"

definition get_device_id :: "(string \<times> string) list \<Rightarrow> string option" where
  "get_device_id header =
     (if ''usn'' \<in> set (dict_keys header)
      then (case map_of header ''usn'' of
              None \<Rightarrow> None
            | Some usn \<Rightarrow> search_uuid usn)
      else None)"

text \<open>
  The spec's wording of the pattern, for comparison with \<open>search_uuid\<close>: the value holds,
  somewhere, the letters \<^verbatim>\<open>uuid:\<close> in any case, an identifier on one line, two colons and
  a rest.
\<close>

definition usn_pattern_spec :: "string \<Rightarrow> bool" where
  "usn_pattern_spec v \<longleftrightarrow>
     (\<exists>pre u ident rest. v = pre @ u @ ident @ ''::'' @ rest
        \<and> py_lower u = ''uuid:'' \<and> CHR 0x0A \<notin> set ident)"


section \<open>upnp/server: data model\<close>

text \<open>
  Sockets and process handles are Python objects, compared by identity: a socket is the
  number of its connection, a \<^verbatim>\<open>Popen\<close> handle is the index of the process in the table
  of spawned processes. \<open>Bridge\<close> carries the two attributes the server reads,
  \<^verbatim>\<open>bridge.upnp_device.short_name\<close> and \<^verbatim>\<open>bridge.sink.monitor\<close>. The recorder class
  lives outside this module; only its constructor call is known.
\<close>

type_synonym sock = nat
type_synonym pid = nat
type_synonym bytes = string

record Bridge =
  short_name :: string
  monitor :: string

record Encoder =
  command :: string
  mime_type :: string
  suffix :: string

datatype Recorder = PulseaudioRecorder string

record RemoteDevice =
  bridge :: Bridge
  ip :: string
  port :: "string + nat"

record ProcessStream =
  path :: string
  recorder :: Recorder
  encoder :: Encoder
  recorder_process :: "pid option"
  encoder_process :: "pid option"
  sockets :: "(sock \<times> RemoteDevice) list"
  chunk_size :: nat
  client_count :: int
  is_running :: bool

text \<open>
  What the operating system holds, outside the Python object: the processes spawned so far
  (which command line each runs, and whose output is its input), the handles that were sent
  \<^verbatim>\<open>kill()\<close>, the sockets that were closed, and the bytes each \<^verbatim>\<open>send\<close> call put on the
  wire, in the order of the calls.
\<close>

datatype program = RecorderProgram Recorder | EncoderProgram Encoder

record process =
  program :: program
  stdin_from :: "pid option"

record world =
  procs :: "process list"
  killed :: "pid list"
  closed_socks :: "sock list"
  wire :: "(sock \<times> bytes) list"

text \<open>
  What the operating system answers during one call of \<^verbatim>\<open>communicate\<close>: whether
  \<^verbatim>\<open>poll()\<close> finds a process exited, the bytes on a process's standard output, whether
  \<^verbatim>\<open>select\<close> raises \<^verbatim>\<open>socket.error\<close> for a socket, which sockets it reports readable and
  writable, the result of the k-th \<^verbatim>\<open>send\<close> on a socket and of \<^verbatim>\<open>recv\<close>.
\<close>

datatype send_res = Sent nat | SendError
datatype recv_res = RecvData bytes | RecvError

record tick_env =
  poll_exited :: "pid \<Rightarrow> bool"
  stdout_data :: "pid \<Rightarrow> bytes"
  select_error :: "sock \<Rightarrow> bool"
  readable :: "sock \<Rightarrow> bool"
  writable :: "sock \<Rightarrow> bool"
  send_result :: "sock \<Rightarrow> nat \<Rightarrow> send_res"
  recv_result :: "sock \<Rightarrow> recv_res"

text \<open>
  A method either returns or raises; in both cases the object and the world are as the
  method left them. \<^verbatim>\<open>sys.exit(2)\<close> raises \<^verbatim>\<open>SystemExit(2)\<close>; a \<^verbatim>\<open>Popen\<close> that cannot
  start its command raises \<^verbatim>\<open>OSError\<close>.
\<close>

datatype exn = SystemExit int | AttributeError | OSError

datatype outcome = Return ProcessStream world | Raise exn ProcessStream world


section \<open>upnp/server: RemoteDevice and ProcessStream\<close>

text \<open>
  \<^verbatim>\<open>RemoteDevice.__init__\<close>: the argument \<open>sn\<close> is the answer of \<^verbatim>\<open>sock.getsockname()\<close>,
  \<open>None\<close> when it raises.
\<close>

definition RemoteDevice_init :: "Bridge \<Rightarrow> (string \<times> nat) option \<Rightarrow> RemoteDevice" where
  "RemoteDevice_init b sn =
     (case sn of
        Some (i, p) \<Rightarrow> \<lparr>bridge = b, ip = i, port = Inr p\<rparr>
      | None \<Rightarrow> \<lparr>bridge = b, ip = ''unknown'', port = Inl ''unknown''\<rparr>)"

text \<open>
  \<^verbatim>\<open>ProcessStream.__init__\<close>. The update thread is started with \<^verbatim>\<open>is_running = True\<close>.
  The lock is not a field of the model: every method below runs as one step, which is what
  the lock gives to the parts of the methods that change the object.
\<close>

definition ProcessStream_init :: "string \<Rightarrow> Recorder \<Rightarrow> Encoder \<Rightarrow> ProcessStream" where
  "ProcessStream_init p r e =
     \<lparr>path = p, recorder = r, encoder = e,
      recorder_process = None, encoder_process = None,
      sockets = [], chunk_size = 1024 * 8, client_count = 0, is_running = True\<rparr>"

text \<open>
  \<^verbatim>\<open>_kill_process\<close> swallows every exception of \<^verbatim>\<open>process.kill()\<close>, also the
  \<^verbatim>\<open>AttributeError\<close> of a handle that is \<^verbatim>\<open>None\<close>. \<^verbatim>\<open>cleanup\<close> kills the encoder first.
\<close>

definition kill_process :: "pid option \<Rightarrow> world \<Rightarrow> world" where
  "kill_process p w = (case p of None \<Rightarrow> w | Some q \<Rightarrow> w\<lparr>killed := killed w @ [q]\<rparr>)"

definition cleanup :: "ProcessStream \<Rightarrow> world \<Rightarrow> world" where
  "cleanup ps w = kill_process (recorder_process ps) (kill_process (encoder_process ps) w)"

text \<open>
  \<^verbatim>\<open>register\<close> and \<^verbatim>\<open>unregister\<close>. The arguments \<^verbatim>\<open>lock_override\<close> and \<^verbatim>\<open>method\<close> only
  choose whether the lock is taken and what is logged; they are not arguments of the model.
  \<^verbatim>\<open>resume()\<close> sets \<^verbatim>\<open>is_running\<close>, \<^verbatim>\<open>pause()\<close> clears it. In the \<^verbatim>\<open>else\<close> branches the
  methods log and call \<^verbatim>\<open>sys.exit(2)\<close>.
\<close>

definition register :: "Bridge \<Rightarrow> sock \<Rightarrow> (string \<times> nat) option \<Rightarrow> ProcessStream \<Rightarrow> world \<Rightarrow> outcome" where
  "register b sock sn ps w =
     (if sock \<notin> set (dict_keys (sockets ps))
      then (let device = RemoteDevice_init b sn
            in Return (ps\<lparr>sockets := AList.update sock device (sockets ps),
                          client_count := client_count ps + 1,
                          is_running := True\<rparr>) w)
      else Raise (SystemExit 2) ps w)"

definition unregister :: "sock \<Rightarrow> ProcessStream \<Rightarrow> world \<Rightarrow> outcome" where
  "unregister sock ps w =
     (if sock \<in> set (dict_keys (sockets ps))
      then (let ps1 = ps\<lparr>sockets := AList.delete sock (sockets ps)\<rparr>;
                w1 = w\<lparr>closed_socks := closed_socks w @ [sock]\<rparr>;
                ps2 = ps1\<lparr>client_count := client_count ps1 - 1\<rparr>
            in if length (sockets ps2) = 0
               then Return (ps2\<lparr>is_running := False\<rparr>) (cleanup ps2 w1)
               else Return ps2 w1)
      else Raise (SystemExit 2) ps w)"

definition do_processes_exist :: "ProcessStream \<Rightarrow> bool" where
  "do_processes_exist ps \<longleftrightarrow> encoder_process ps \<noteq> None \<and> recorder_process ps \<noteq> None"

definition do_processes_respond :: "tick_env \<Rightarrow> ProcessStream \<Rightarrow> exn + bool" where
  "do_processes_respond env ps =
     (case recorder_process ps of
        None \<Rightarrow> Inl AttributeError
      | Some r \<Rightarrow>
          if poll_exited env r then Inr False
          else (case encoder_process ps of
                  None \<Rightarrow> Inl AttributeError
                | Some e \<Rightarrow> Inr (\<not> poll_exited env e)))"

text \<open>
  \<^verbatim>\<open>do_processes_respond\<close> polls the recorder and, only if that is alive, the encoder; on
  a handle that is \<^verbatim>\<open>None\<close> the attribute access raises. \<^verbatim>\<open>create_processes\<close> spawns the
  recorder, then the encoder with the recorder's output as its input. \<open>create_processes\<close>
  is the call in which both \<^verbatim>\<open>Popen\<close> succeed; \<open>create_processes_os\<close> further down is the
  call with the failures of \<^verbatim>\<open>Popen\<close>, for which the source has no handler.
\<close>

definition create_processes :: "ProcessStream \<Rightarrow> world \<Rightarrow> ProcessStream \<times> world" where
  "create_processes ps w =
     (let r = length (procs w);
          w1 = w\<lparr>procs := procs w @ [\<lparr>program = RecorderProgram (recorder ps), stdin_from = None\<rparr>]\<rparr>;
          ps1 = ps\<lparr>recorder_process := Some r\<rparr>;
          e = length (procs w1);
          w2 = w1\<lparr>procs := procs w1 @ [\<lparr>program = EncoderProgram (encoder ps1), stdin_from = Some r\<rparr>]\<rparr>
      in (ps1\<lparr>encoder_process := Some e\<rparr>, w2))"

text \<open>
  \<^verbatim>\<open>_send_data\<close>: \<open>answers k\<close> is the result of the k-th \<^verbatim>\<open>send\<close> of this call. The loop
  goes on while \<open>bytes_sent < bytes_total\<close>; a socket that keeps accepting zero bytes keeps
  it running, so the function is partial and \<open>None\<close> stands for a call that never returns.
  The result says whether the loop ended without \<^verbatim>\<open>socket.error\<close>, and the final
  \<open>bytes_sent\<close>.
\<close>

partial_function (option) send_data :: "(nat \<Rightarrow> send_res) \<Rightarrow> bytes \<Rightarrow> nat \<Rightarrow> nat \<Rightarrow> (bool \<times> nat) option" where
  "send_data answers data bytes_sent k =
     (if bytes_sent < length data
      then (case answers k of
              SendError \<Rightarrow> Some (False, bytes_sent)
            | Sent n \<Rightarrow> send_data answers data (bytes_sent + n) (Suc k))
      else Some (True, bytes_sent))"

declare send_data.simps [code]

text \<open>The loop over the sockets for which the single \<^verbatim>\<open>select\<close> is repeated (method 1).\<close>

fun select_each :: "tick_env \<Rightarrow> sock list \<Rightarrow> ProcessStream \<Rightarrow> world \<Rightarrow> outcome" where
  "select_each env [] ps w = Return ps w"
| "select_each env (sock # rest) ps w =
     (if select_error env sock
      then (case unregister sock ps w of
              Return ps' w' \<Rightarrow> select_each env rest ps' w'
            | Raise x ps' w' \<Rightarrow> Raise x ps' w')
      else select_each env rest ps w)"

text \<open>
  The loop over the writable sockets (method 2). The bytes a socket accepted before the
  loop of \<^verbatim>\<open>_send_data\<close> ended are recorded on the wire.
\<close>

fun write_loop :: "tick_env \<Rightarrow> bytes \<Rightarrow> sock list \<Rightarrow> ProcessStream \<Rightarrow> world \<Rightarrow> outcome option" where
  "write_loop env data [] ps w = Some (Return ps w)"
| "write_loop env data (sock # rest) ps w =
     (case send_data (send_result env sock) data 0 0 of
        None \<Rightarrow> None
      | Some (ok, n) \<Rightarrow>
          (let w1 = w\<lparr>wire := wire w @ [(sock, take n data)]\<rparr>
           in if ok then write_loop env data rest ps w1
              else (case unregister sock ps w1 of
                      Return ps' w' \<Rightarrow> write_loop env data rest ps' w'
                    | Raise x ps' w' \<Rightarrow> Some (Raise x ps' w'))))"

text \<open>The loop over the readable sockets (methods 3 and 4).\<close>

fun read_loop :: "tick_env \<Rightarrow> sock list \<Rightarrow> ProcessStream \<Rightarrow> world \<Rightarrow> outcome" where
  "read_loop env [] ps w = Return ps w"
| "read_loop env (sock # rest) ps w =
     (if sock \<in> set (dict_keys (sockets ps))
      then (case recv_result env sock of
              RecvData bs \<Rightarrow>
                if length bs = 0
                then (case unregister sock ps w of
                        Return ps' w' \<Rightarrow> read_loop env rest ps' w'
                      | Raise x ps' w' \<Rightarrow> Raise x ps' w')
                else read_loop env rest ps w
            | RecvError \<Rightarrow>
                (case unregister sock ps w of
                   Return ps' w' \<Rightarrow> read_loop env rest ps' w'
                 | Raise x ps' w' \<Rightarrow> Raise x ps' w'))
      else read_loop env rest ps w)"

text \<open>
  \<^verbatim>\<open>communicate\<close>, one tick. \<^verbatim>\<open>select.select(socks, socks, [], 0)\<close> raises
  \<^verbatim>\<open>socket.error\<close> when it does so for one of the sockets; otherwise it returns the
  readable and the writable ones, in the order of \<open>socks\<close>.
\<close>

definition communicate :: "tick_env \<Rightarrow> ProcessStream \<Rightarrow> world \<Rightarrow> outcome option" where
  "communicate env ps w =
     (let (ps1, w1) = (if \<not> do_processes_exist ps then create_processes ps w else (ps, w))
      in case do_processes_respond env ps1 of
           Inl x \<Rightarrow> Some (Raise x ps1 w1)
         | Inr respond \<Rightarrow>
             (let (ps2, w2) = (if \<not> respond then create_processes ps1 (cleanup ps1 w1)
                               else (ps1, w1))
              in case encoder_process ps2 of
                   None \<Rightarrow> Some (Raise AttributeError ps2 w2)
                 | Some e \<Rightarrow>
                     (let data = take (chunk_size ps2) (stdout_data env e);
                          socks = dict_keys (sockets ps2)
                      in if \<exists>sock \<in> set socks. select_error env sock
                         then Some (select_each env socks ps2 w2)
                         else (case write_loop env data (filter (writable env) socks) ps2 w2 of
                                 None \<Rightarrow> None
                               | Some (Raise x ps3 w3) \<Rightarrow> Some (Raise x ps3 w3)
                               | Some (Return ps3 w3) \<Rightarrow>
                                   Some (read_loop env (filter (readable env) socks) ps3 w3)))))"

text \<open>One turn of the loop of \<^verbatim>\<open>UpdateThread.run\<close>: a paused thread waits on its own lock.\<close>

definition update_thread_step :: "tick_env \<Rightarrow> ProcessStream \<Rightarrow> world \<Rightarrow> outcome option" where
  "update_thread_step env ps w =
     (if is_running ps then communicate env ps w else Some (Return ps w))"

text \<open>
  \<^verbatim>\<open>create_processes\<close> with the failures of \<^verbatim>\<open>Popen\<close>: \<open>popen_fails q\<close> says that the
  \<^verbatim>\<open>Popen\<close> which would start process \<open>q\<close> raises \<^verbatim>\<open>OSError\<close>. The source assigns
  \<^verbatim>\<open>self.recorder_process\<close> before it calls the second \<^verbatim>\<open>Popen\<close>, so an encoder that
  cannot be started leaves the new recorder handle in the object and the encoder handle as
  it was. \<open>communicate_os\<close> is \<^verbatim>\<open>communicate\<close> with these failures, which leave the method
  through its \<^verbatim>\<open>finally\<close> clause; the part after the health check is the same text as in
  \<open>communicate\<close>.
\<close>

definition create_processes_os :: "(pid \<Rightarrow> bool) \<Rightarrow> ProcessStream \<Rightarrow> world \<Rightarrow> outcome" where
  "create_processes_os popen_fails ps w =
     (let r = length (procs w)
      in if popen_fails r then Raise OSError ps w
         else (let w1 = w\<lparr>procs := procs w @ [\<lparr>program = RecorderProgram (recorder ps), stdin_from = None\<rparr>]\<rparr>;
                   ps1 = ps\<lparr>recorder_process := Some r\<rparr>;
                   e = length (procs w1)
               in if popen_fails e then Raise OSError ps1 w1
                  else (let w2 = w1\<lparr>procs := procs w1 @ [\<lparr>program = EncoderProgram (encoder ps1), stdin_from = Some r\<rparr>]\<rparr>
                        in Return (ps1\<lparr>encoder_process := Some e\<rparr>) w2)))"

definition communicate_os :: "(pid \<Rightarrow> bool) \<Rightarrow> tick_env \<Rightarrow> ProcessStream \<Rightarrow> world \<Rightarrow> outcome option" where
  "communicate_os popen_fails env ps w =
     (case (if \<not> do_processes_exist ps then create_processes_os popen_fails ps w
            else Return ps w) of
        Raise x ps1 w1 \<Rightarrow> Some (Raise x ps1 w1)
      | Return ps1 w1 \<Rightarrow>
          (case do_processes_respond env ps1 of
             Inl x \<Rightarrow> Some (Raise x ps1 w1)
           | Inr respond \<Rightarrow>
               (case (if \<not> respond then create_processes_os popen_fails ps1 (cleanup ps1 w1)
                      else Return ps1 w1) of
                  Raise x ps2 w2 \<Rightarrow> Some (Raise x ps2 w2)
                | Return ps2 w2 \<Rightarrow>
                    (case encoder_process ps2 of
                       None \<Rightarrow> Some (Raise AttributeError ps2 w2)
                     | Some e \<Rightarrow>
                         (let data = take (chunk_size ps2) (stdout_data env e);
                              socks = dict_keys (sockets ps2)
                          in if \<exists>sock \<in> set socks. select_error env sock
                             then Some (select_each env socks ps2 w2)
                             else (case write_loop env data (filter (writable env) socks) ps2 w2 of
                                     None \<Rightarrow> None
                                   | Some (Raise x ps3 w3) \<Rightarrow> Some (Raise x ps3 w3)
                                   | Some (Return ps3 w3) \<Rightarrow>
                                       Some (read_loop env (filter (readable env) socks) ps3 w3)))))))"

text \<open>\<^verbatim>\<open>shutdown\<close>, the exit hook.\<close>

definition shutdown :: "ProcessStream \<Rightarrow> world \<Rightarrow> world" where
  "shutdown ps w = w\<lparr>closed_socks := closed_socks w @ dict_keys (sockets ps)\<rparr>"

text \<open>
  Histories of one stream: the calls that reach it, in the order the lock serialises them.
  A history ends at the first call that raises.
\<close>

datatype call =
    Register Bridge sock "(string \<times> nat) option"
  | Unregister sock
  | Tick tick_env

fun exec_call :: "call \<Rightarrow> ProcessStream \<Rightarrow> world \<Rightarrow> outcome option" where
  "exec_call (Register b sock sn) ps w = Some (register b sock sn ps w)"
| "exec_call (Unregister sock) ps w = Some (unregister sock ps w)"
| "exec_call (Tick env) ps w = update_thread_step env ps w"

fun run :: "call list \<Rightarrow> ProcessStream \<Rightarrow> world \<Rightarrow> outcome option" where
  "run [] ps w = Some (Return ps w)"
| "run (x # xs) ps w =
     (case exec_call x ps w of
        Some (Return ps' w') \<Rightarrow> run xs ps' w'
      | other \<Rightarrow> other)"

definition world0 :: world where
  "world0 = \<lparr>procs = [], killed = [], closed_socks = [], wire = []\<rparr>"

text \<open>The bytes that reached one socket, in order.\<close>

definition delivered :: "world \<Rightarrow> sock \<Rightarrow> bytes" where
  "delivered w sock = concat (map snd (filter (\<lambda>(s, bs). s = sock) (wire w)))"

text \<open>Whether \<^verbatim>\<open>_send_data\<close> raises \<^verbatim>\<open>socket.error\<close> for a socket and a chunk.\<close>

definition send_raises :: "tick_env \<Rightarrow> sock \<Rightarrow> bytes \<Rightarrow> bool" where
  "send_raises env sock data \<longleftrightarrow>
     (case send_data (send_result env sock) data 0 0 of Some (False, n) \<Rightarrow> True | _ \<Rightarrow> False)"

text \<open>Whether the read loop drops a socket: \<^verbatim>\<open>recv\<close> returns no byte or raises.\<close>

definition recv_closes :: "tick_env \<Rightarrow> sock \<Rightarrow> bool" where
  "recv_closes env sock \<longleftrightarrow>
     (case recv_result env sock of RecvData bs \<Rightarrow> length bs = 0 | RecvError \<Rightarrow> True)"


section \<open>upnp/server: StreamManager\<close>

text \<open>
  The streams are objects on the heap; the manager's dictionary holds their addresses, so
  that two lookups can be compared for giving the same object. In \<open>get_stream\<close> the test
  \<^verbatim>\<open>path not in self.streams\<close> and the lookup \<^verbatim>\<open>self.streams[path]\<close> are one case
  distinction on the dictionary's entry for the path.
\<close>

record heap =
  objects :: "nat \<Rightarrow> ProcessStream"
  next_ref :: nat

record StreamManager =
  streams :: "(string \<times> nat) list"

definition StreamManager_init :: StreamManager where
  "StreamManager_init = \<lparr>streams = []\<rparr>"

definition get_stream :: "string \<Rightarrow> Bridge \<Rightarrow> Encoder \<Rightarrow> StreamManager \<Rightarrow> heap \<Rightarrow> nat \<times> StreamManager \<times> heap" where
  "get_stream p b e m h =
     (case map_of (streams m) p of
        None \<Rightarrow>
          (let rec = PulseaudioRecorder (monitor b);
               stream = ProcessStream_init p rec e;
               ref = next_ref h;
               h1 = h\<lparr>objects := (objects h)(ref := stream), next_ref := Suc ref\<rparr>
           in (ref, m\<lparr>streams := AList.update p ref (streams m)\<rparr>, h1))
      | Some ref \<Rightarrow> (ref, m, h))"


section \<open>upnp/server: StreamRequestHandler\<close>

text \<open>
  \<^verbatim>\<open>re.findall(r"/(.*?)\.(.*)", path)[0]\<close>: the leftmost slash after which a dot follows on
  the same line; the name is the text up to the first such dot, the suffix the rest of the
  line. \<open>None\<close> is the \<^verbatim>\<open>IndexError\<close> of an empty list of matches.
\<close>

fun lazy_until_dot :: "string \<Rightarrow> (string \<times> string) option" where
  "lazy_until_dot [] = None"
| "lazy_until_dot (c # cs) =
     (if c = CHR ''.'' then Some ([], cs)
      else if c = CHR 0x0A then None
      else map_option (\<lambda>(n, r). (c # n, r)) (lazy_until_dot cs))"

definition greedy_line :: "string \<Rightarrow> string" where
  "greedy_line s = takeWhile (\<lambda>c. c \<noteq> CHR 0x0A) s"

fun path_first_match :: "string \<Rightarrow> (string \<times> string) option" where
  "path_first_match [] = None"
| "path_first_match (c # cs) =
     (if c = CHR ''/''
      then (case lazy_until_dot cs of
              Some (n, r) \<Rightarrow> Some (n, greedy_line r)
            | None \<Rightarrow> path_first_match cs)
      else path_first_match cs)"

text \<open>
  A \<^verbatim>\<open>for\<close> loop that stores the first element satisfying the test and breaks: the result
  is the loop variable as the loop leaves it, and the stored choice.
\<close>

fun for_break :: "('a \<Rightarrow> bool) \<Rightarrow> 'a list \<Rightarrow> 'a option \<Rightarrow> 'a option \<times> 'a option" where
  "for_break P [] var = (var, None)"
| "for_break P (x # xs) var = (if P x then (Some x, Some x) else for_break P xs (Some x))"

record StreamServer =
  bridges :: "Bridge list"
  encoders :: "Encoder list"
  stream_manager :: StreamManager

definition chop_request_path :: "StreamServer \<Rightarrow> string \<Rightarrow> (Bridge \<times> Encoder) option" where
  "chop_request_path srv p =
     (case path_first_match p of
        None \<Rightarrow> None
      | Some (name, suff) \<Rightarrow>
          (let (encoder_var, choosen_encoder) =
                 for_break (\<lambda>e. suffix e = suff) (encoders srv) None;
               (bridge_var, choosen_bridge) =
                 for_break (\<lambda>b. name = short_name b) (bridges srv) None
           in if choosen_bridge \<noteq> None \<and> choosen_encoder \<noteq> None
              then (case (bridge_var, encoder_var) of
                      (Some b, Some e) \<Rightarrow> Some (b, e)
                    | _ \<Rightarrow> None)
              else None))"

text \<open>
  The response the handler writes: status line, the headers it sends itself, and the
  message of \<^verbatim>\<open>send_error\<close>.
\<close>

record response =
  status :: nat
  headers :: "(string \<times> string) list"
  error_message :: "string option"

definition handle_headers :: "StreamServer \<Rightarrow> string \<Rightarrow> response \<times> (Bridge \<times> Encoder) option" where
  "handle_headers srv p =
     (case chop_request_path srv p of
        Some (b, e) \<Rightarrow>
          (\<lparr>status = 200, headers = [(''Content-Type'', mime_type e)], error_message = None\<rparr>,
           Some (b, e))
      | None \<Rightarrow>
          (\<lparr>status = 404, headers = [], error_message = Some (''File not found: '' @ p)\<rparr>,
           None))"

definition do_HEAD :: "StreamServer \<Rightarrow> string \<Rightarrow> response" where
  "do_HEAD srv p = fst (handle_headers srv p)"

text \<open>
  \<^verbatim>\<open>do_GET\<close>: the response of \<^verbatim>\<open>handle_headers\<close>, then the registration of the request's
  socket with the stream of the path. The loop of \<^verbatim>\<open>keep_connection_alive\<close> changes
  nothing and is left out. The result is the response, the exception that ended the call
  if one did, and the server, heap and world afterwards.
\<close>

definition do_GET :: "string \<Rightarrow> sock \<Rightarrow> (string \<times> nat) option \<Rightarrow> StreamServer \<Rightarrow> heap \<Rightarrow> world
    \<Rightarrow> response \<times> exn option \<times> StreamServer \<times> heap \<times> world" where
  "do_GET p request sn srv h w =
     (case handle_headers srv p of
        (resp, None) \<Rightarrow> (resp, None, srv, h, w)
      | (resp, Some (b, e)) \<Rightarrow>
          (let (ref, m1, h1) = get_stream p b e (stream_manager srv) h;
               srv1 = srv\<lparr>stream_manager := m1\<rparr>
           in case register b request sn (objects h1 ref) w of
                Return ps' w' \<Rightarrow>
                  (resp, None, srv1, h1\<lparr>objects := (objects h1)(ref := ps')\<rparr>, w')
              | Raise x ps' w' \<Rightarrow>
                  (resp, Some x, srv1, h1\<lparr>objects := (objects h1)(ref := ps')\<rparr>, w')))"


text \<open>
  A history of lookups: each call of \<open>get_stream\<close> with its path, bridge and encoder; the
  result lists the objects returned, in the order of the calls.
\<close>

fun get_stream_calls :: "(string \<times> Bridge \<times> Encoder) list \<Rightarrow> StreamManager \<Rightarrow> heap
    \<Rightarrow> nat list \<times> StreamManager \<times> heap" where
  "get_stream_calls [] m h = ([], m, h)"
| "get_stream_calls ((p, b, e) # cs) m h =
     (let (ref, m1, h1) = get_stream p b e m h;
          (refs, m2, h2) = get_stream_calls cs m1 h1
      in (ref # refs, m2, h2))"


section \<open>Notions used in the statements\<close>

text \<open>The object and the world an outcome carries, returned or raised.\<close>

fun outcome_stream :: "outcome \<Rightarrow> ProcessStream" where
  "outcome_stream (Return ps w) = ps"
| "outcome_stream (Raise x ps w) = ps"

fun outcome_world :: "outcome \<Rightarrow> world" where
  "outcome_world (Return ps w) = w"
| "outcome_world (Raise x ps w) = w"

text \<open>Whether an outcome is \<^verbatim>\<open>SystemExit\<close>, the request to end the interpreter.\<close>

fun requests_exit :: "outcome \<Rightarrow> bool" where
  "requests_exit (Raise (SystemExit n) ps w) = True"
| "requests_exit out = False"

text \<open>
  The dictionary of sockets has distinct keys (what a Python dictionary always has), and
  \<open>client_count\<close> is its number of entries.
\<close>

definition dict_wf :: "ProcessStream \<Rightarrow> bool" where
  "dict_wf ps \<longleftrightarrow> distinct (dict_keys (sockets ps))"

definition count_matches :: "ProcessStream \<Rightarrow> bool" where
  "count_matches ps \<longleftrightarrow> client_count ps = int (length (sockets ps))"

text \<open>The handles of the object are processes that were spawned.\<close>

definition handles_valid :: "ProcessStream \<Rightarrow> world \<Rightarrow> bool" where
  "handles_valid ps w \<longleftrightarrow>
     (\<forall>q. recorder_process ps = Some q \<or> encoder_process ps = Some q \<longrightarrow> q < length (procs w))"

text \<open>The bytes one call of \<^verbatim>\<open>_send_data\<close> puts on the wire.\<close>

definition sent_bytes :: "tick_env \<Rightarrow> sock \<Rightarrow> bytes \<Rightarrow> bytes" where
  "sent_bytes env sock data =
     (case send_data (send_result env sock) data 0 0 of
        Some (ok, n) \<Rightarrow> take n data
      | None \<Rightarrow> [])"

text \<open>
  \<^verbatim>\<open>communicate\<close> in two parts, for the proofs: the health check with its restarts, and
  the transport of one chunk read from encoder process \<open>e\<close>. Lemma \<open>communicate_parts\<close>
  shows that \<open>communicate\<close> is the one followed by the other.
\<close>

definition health_check :: "tick_env \<Rightarrow> ProcessStream \<Rightarrow> world \<Rightarrow> ProcessStream \<times> world" where
  "health_check env ps w =
     (let (ps1, w1) = (if \<not> do_processes_exist ps then create_processes ps w else (ps, w))
      in if do_processes_respond env ps1 = Inr False
         then create_processes ps1 (cleanup ps1 w1)
         else (ps1, w1))"

definition transport :: "tick_env \<Rightarrow> pid \<Rightarrow> ProcessStream \<Rightarrow> world \<Rightarrow> outcome option" where
  "transport env e ps w =
     (let data = take (chunk_size ps) (stdout_data env e);
          socks = dict_keys (sockets ps)
      in if \<exists>sock \<in> set socks. select_error env sock
         then Some (select_each env socks ps w)
         else (case write_loop env data (filter (writable env) socks) ps w of
                 None \<Rightarrow> None
               | Some (Raise x ps3 w3) \<Rightarrow> Some (Raise x ps3 w3)
               | Some (Return ps3 w3) \<Rightarrow>
                   Some (read_loop env (filter (readable env) socks) ps3 w3)))"

text \<open>
  What every step of the transport keeps, from \<open>(ps, w)\<close> to \<open>(ps', w')\<close>: the handles and
  the chunk size, the table of processes, the handles already killed; the wire only grows,
  by pieces that are prefixes of the chunk; the closed sockets only grow; no socket is
  added; a well-formed dictionary with a matching count stays so.
\<close>

definition tick_frame :: "bytes \<Rightarrow> ProcessStream \<Rightarrow> world \<Rightarrow> ProcessStream \<Rightarrow> world \<Rightarrow> bool" where
  "tick_frame data ps w ps' w' \<longleftrightarrow>
     recorder_process ps' = recorder_process ps
     \<and> encoder_process ps' = encoder_process ps
     \<and> chunk_size ps' = chunk_size ps
     \<and> procs w' = procs w
     \<and> set (killed w) \<subseteq> set (killed w')
     \<and> set (closed_socks w) \<subseteq> set (closed_socks w')
     \<and> (\<exists>new. wire w' = wire w @ new \<and> (\<forall>x \<in> set new. \<exists>n. snd x = take n data))
     \<and> set (dict_keys (sockets ps')) \<subseteq> set (dict_keys (sockets ps))
     \<and> (dict_wf ps \<and> count_matches ps \<longrightarrow> dict_wf ps' \<and> count_matches ps')"


section \<open>Example values\<close>

definition livingroom :: Bridge where
  "livingroom = \<lparr>short_name = ''livingroom'', monitor = ''livingroom.monitor''\<rparr>"

definition mp3_encoder :: Encoder where
  "mp3_encoder = \<lparr>command = ''lame -r -b 320 -'', mime_type = ''audio/mpeg'', suffix = ''mp3''\<rparr>"

definition ogg_encoder :: Encoder where
  "ogg_encoder = \<lparr>command = ''oggenc -r -'', mime_type = ''audio/ogg'', suffix = ''ogg''\<rparr>"

definition mp3_alternative :: Encoder where
  "mp3_alternative = \<lparr>command = ''ffmpeg -f mp3 -'', mime_type = ''audio/mp3'', suffix = ''mp3''\<rparr>"

definition example_server :: StreamServer where
  "example_server =
     \<lparr>bridges = [livingroom], encoders = [ogg_encoder, mp3_encoder, mp3_alternative],
      stream_manager = StreamManager_init\<rparr>"

definition example_stream :: ProcessStream where
  "example_stream =
     ProcessStream_init ''/livingroom.mp3'' (PulseaudioRecorder ''livingroom.monitor'') mp3_encoder"

definition one_client :: ProcessStream where
  "one_client =
     example_stream\<lparr>sockets := [(7, RemoteDevice_init livingroom None)], client_count := 1\<rparr>"

text \<open>The stream and the world after socket 7 registered and one quiet tick ran.\<close>

definition one_client_streaming :: ProcessStream where
  "one_client_streaming = one_client\<lparr>recorder_process := Some 0, encoder_process := Some 1\<rparr>"

definition world_streaming :: world where
  "world_streaming =
     \<lparr>procs = [\<lparr>program = RecorderProgram (PulseaudioRecorder ''livingroom.monitor''),
                 stdin_from = None\<rparr>,
               \<lparr>program = EncoderProgram mp3_encoder, stdin_from = Some 0\<rparr>],
      killed = [], closed_socks = [], wire = [(7, ''abc'')]\<rparr>"

definition heap0 :: heap where
  "heap0 = \<lparr>objects = (\<lambda>_. example_stream), next_ref = 0\<rparr>"

text \<open>
  A quiet tick: no process has exited, the encoder has written \<^verbatim>\<open>abc\<close>, every socket is
  writable and takes two bytes per \<^verbatim>\<open>send\<close>, none is readable.
\<close>

definition quiet_env :: tick_env where
  "quiet_env =
     \<lparr>poll_exited = (\<lambda>_. False), stdout_data = (\<lambda>_. ''abc''),
      select_error = (\<lambda>_. False), readable = (\<lambda>_. False), writable = (\<lambda>_. True),
      send_result = (\<lambda>_ _. Sent 2), recv_result = (\<lambda>_. RecvData ''x'')\<rparr>"


text \<open>
  A second client, socket 8, whose second \<^verbatim>\<open>send\<close> raises; and a tick in which the encoder
  process 1 is found exited and the new encoder, process 3, has written \<^verbatim>\<open>xyz\<close>.
\<close>

definition two_clients_streaming :: ProcessStream where
  "two_clients_streaming =
     one_client_streaming
       \<lparr>sockets := [(7, RemoteDevice_init livingroom None), (8, RemoteDevice_init livingroom None)],
        client_count := 2\<rparr>"

definition flaky_env :: tick_env where
  "flaky_env =
     quiet_env\<lparr>send_result := (\<lambda>sock k. if sock = 8 \<and> k = 1 then SendError else Sent 2)\<rparr>"

definition crash_env :: tick_env where
  "crash_env =
     quiet_env\<lparr>poll_exited := (\<lambda>q. q = 1),
                stdout_data := (\<lambda>q. if q = 3 then ''xyz'' else ''old'')\<rparr>"


section \<open>Properties of the header map and the device id\<close>

lemma lazy_until_newline_none: "CHR 0x0A \<notin> set t \<Longrightarrow> lazy_until_newline t = None"
  by (induction t) auto

lemma lazy_until_newline_append:
  "CHR 0x0A \<notin> set t \<Longrightarrow>
   lazy_until_newline (s @ t) = map_option (\<lambda>(v, r). (v, r @ t)) (lazy_until_newline s)"
  by (induction s) (auto simp: lazy_until_newline_none option.map_comp comp_def split_def)

lemma lazy_until_colon_rest: "lazy_until_colon t = Some (n, r) \<Longrightarrow> set r \<subseteq> set t"
  by (induction t arbitrary: n r) (auto split: if_splits)

lemma header_match_at_none:
  assumes "CHR 0x0A \<notin> set t"
  shows "header_match_at t = None"
proof (cases "lazy_until_colon t")
  case None
  then show ?thesis by (simp add: header_match_at_def)
next
  case (Some nr)
  obtain n r where nr: "nr = (n, r)" by (cases nr)
  with Some have "set r \<subseteq> set t" by (auto dest: lazy_until_colon_rest)
  with assms have "CHR 0x0A \<notin> set r" by auto
  then have "lazy_until_newline r = None" by (rule lazy_until_newline_none)
  with Some nr show ?thesis by (simp add: header_match_at_def)
qed

lemma header_match_at_Cons:
  "header_match_at (c # s) =
     (if c = CHR '':'' then map_option (\<lambda>(v, r). ([], v, r)) (lazy_until_newline s)
      else if c = CHR 0x0A then None
      else map_option (\<lambda>(n, v, r). (c # n, v, r)) (header_match_at s))"
  by (auto simp: header_match_at_def split: option.splits)

lemma header_match_at_append:
  "CHR 0x0A \<notin> set t \<Longrightarrow>
   header_match_at (s @ t) = map_option (\<lambda>(n, v, r). (n, v, r @ t)) (header_match_at s)"
proof (induction s)
  case Nil
  have "header_match_at [] = None" by (simp add: header_match_at_def)
  with Nil show ?case by (simp add: header_match_at_none)
next
  case (Cons c s)
  then show ?case
    by (simp add: header_match_at_Cons lazy_until_newline_append option.map_comp comp_def split_def)
qed

lemma findall_header_no_newline: "CHR 0x0A \<notin> set t \<Longrightarrow> findall_header t = []"
proof (induction t)
  case Nil
  then show ?case by (simp add: findall_header.simps [of "[]"] header_match_at_def)
next
  case (Cons a t)
  have "header_match_at (a # t) = None" using Cons.prems by (rule header_match_at_none)
  with Cons show ?case by (simp add: findall_header.simps [of "a # t"])
qed

lemma findall_header_append:
  "CHR 0x0A \<notin> set t \<Longrightarrow> findall_header (s @ t) = findall_header s"
proof (induction s rule: findall_header.induct)
  case (1 s)
  show ?case
  proof (cases "header_match_at s")
    case None
    with 1 have m: "header_match_at (s @ t) = None" by (simp add: header_match_at_append)
    show ?thesis
    proof (cases s)
      case Nil
      with 1 show ?thesis
        by (simp add: findall_header_no_newline)
    next
      case (Cons c cs)
      with 1 None have "findall_header (cs @ t) = findall_header cs" by simp
      with m None Cons show ?thesis
        by (simp add: findall_header.simps [of "c # cs @ t"] findall_header.simps [of "c # cs"])
    qed
  next
    case (Some m)
    obtain n v rest where m: "m = (n, v, rest)" by (cases m)
    with 1 Some have ih: "findall_header (rest @ t) = findall_header rest" by simp
    from 1 Some m have "header_match_at (s @ t) = Some (n, v, rest @ t)"
      by (simp add: header_match_at_append)
    with Some m ih show ?thesis
      by (simp add: findall_header.simps [of "s @ t"] findall_header.simps [of s])
  qed
qed

text \<open>
  Claim C10. Only lines ended by a line feed give entries: a final piece of the header
  text without a line feed adds nothing to the mapping of the text before it, and a text
  with no line feed at all gives the empty mapping.
\<close>

theorem header_map_ignores_unterminated_line:
  "CHR 0x0A \<notin> set final_line \<Longrightarrow>
     get_header_map (terminated @ final_line) = get_header_map terminated
     \<and> get_header_map final_line = []"
  by (simp add: get_header_map_def findall_header_append findall_header_no_newline py_dict_def)

theorem header_map_ignores_unterminated_line_witness:
  "CHR 0x0A \<notin> set ''ST: upnp:rootdevice''
   \<and> get_header_map (''USN: uuid:1'' @ [CHR 0x0A] @ ''ST: upnp:rootdevice'')
       = get_header_map (''USN: uuid:1'' @ [CHR 0x0A])
   \<and> get_header_map (''USN: uuid:1'' @ [CHR 0x0A]) = [(''usn'', ''uuid:1'')]
   \<and> get_header_map ''ST: upnp:rootdevice'' = []"
proof -
  have h: "CHR 0x0A \<notin> set ''ST: upnp:rootdevice''" by simp
  have e: "get_header_map (''USN: uuid:1'' @ [CHR 0x0A]) = [(''usn'', ''uuid:1'')]"
    by code_simp
  show ?thesis
    using h e header_map_ignores_unterminated_line [OF h, of "''USN: uuid:1'' @ [CHR 0x0A]"]
    by simp
qed

lemma lazy_until_dcolon_sound:
  "lazy_until_dcolon s = Some t \<Longrightarrow> \<exists>rest. s = t @ ''::'' @ rest \<and> CHR 0x0A \<notin> set t"
proof (induction s arbitrary: t)
  case Nil
  then show ?case by simp
next
  case (Cons c cs)
  show ?case
  proof (cases "c = CHR '':'' \<and> take 1 cs = '':''")
    case True
    then obtain rest where "cs = CHR '':'' # rest" by (cases cs) auto
    with True Cons.prems show ?thesis by auto
  next
    case False
    with Cons.prems obtain t' where t': "lazy_until_dcolon cs = Some t'" "t = c # t'" "c \<noteq> CHR 0x0A"
      by (auto split: if_splits)
    with Cons.IH obtain rest where "cs = t' @ ''::'' @ rest" "CHR 0x0A \<notin> set t'" by blast
    with t' show ?thesis by auto
  qed
qed

lemma lazy_until_dcolon_complete:
  "CHR 0x0A \<notin> set ident \<Longrightarrow> lazy_until_dcolon (ident @ ''::'' @ rest) \<noteq> None"
  by (induction ident) auto

lemma uuid_match_at_sound:
  assumes "uuid_match_at s = Some g"
  shows "\<exists>u ident rest. s = u @ ident @ ''::'' @ rest \<and> py_lower u = ''uuid:''
           \<and> CHR 0x0A \<notin> set ident \<and> g = u @ ident"
proof -
  from assms have u: "py_lower (take 5 s) = ''uuid:''"
    and "\<exists>t. lazy_until_dcolon (drop 5 s) = Some t \<and> g = take 5 s @ t"
    by (auto simp: uuid_match_at_def split: if_splits)
  then obtain t where t: "lazy_until_dcolon (drop 5 s) = Some t" "g = take 5 s @ t" by blast
  from lazy_until_dcolon_sound [OF t(1)] obtain rest
    where r: "drop 5 s = t @ ''::'' @ rest" "CHR 0x0A \<notin> set t" by blast
  have "s = take 5 s @ drop 5 s" by simp
  with r have "s = take 5 s @ t @ ''::'' @ rest" by simp
  with u r t show ?thesis by blast
qed

lemma uuid_match_at_complete:
  assumes "py_lower u = ''uuid:''" "CHR 0x0A \<notin> set ident"
  shows "uuid_match_at (u @ ident @ ''::'' @ rest) \<noteq> None"
proof -
  have "length (py_lower u) = length u" by (simp add: py_lower_def)
  with assms(1) have "length u = 5" by simp
  then show ?thesis using assms lazy_until_dcolon_complete [OF assms(2), of rest]
    by (auto simp: uuid_match_at_def)
qed

lemma search_uuid_sound:
  "search_uuid s = Some g \<Longrightarrow> usn_pattern_spec s"
proof (induction s)
  case Nil
  then show ?case by simp
next
  case (Cons c cs)
  show ?case
  proof (cases "uuid_match_at (c # cs)")
    case None
    with Cons have "usn_pattern_spec cs" by simp
    then obtain pre u ident rest where "cs = pre @ u @ ident @ ''::'' @ rest"
      "py_lower u = ''uuid:''" "CHR 0x0A \<notin> set ident"
      unfolding usn_pattern_spec_def by blast
    then have "c # cs = (c # pre) @ u @ ident @ ''::'' @ rest \<and> py_lower u = ''uuid:'' \<and> CHR 0x0A \<notin> set ident"
      by simp
    then show ?thesis unfolding usn_pattern_spec_def by blast
  next
    case (Some g')
    from uuid_match_at_sound [OF Some] obtain u ident rest where
      "c # cs = [] @ u @ ident @ ''::'' @ rest" "py_lower u = ''uuid:''" "CHR 0x0A \<notin> set ident"
      by auto
    then show ?thesis unfolding usn_pattern_spec_def by blast
  qed
qed

lemma search_uuid_append:
  "uuid_match_at x \<noteq> None \<Longrightarrow> search_uuid (pre @ x) \<noteq> None"
proof (induction pre)
  case Nil
  then show ?case by (cases x) (auto simp: uuid_match_at_def py_lower_def)
next
  case (Cons c pre)
  then show ?case by (auto split: option.splits)
qed

lemma search_uuid_complete: "usn_pattern_spec s \<Longrightarrow> search_uuid s \<noteq> None"
  unfolding usn_pattern_spec_def
  using search_uuid_append uuid_match_at_complete by blast

lemma map_of_dict_keys: "(k \<in> set (dict_keys d)) = (map_of d k \<noteq> None)"
  by (simp add: dict_keys_def map_of_eq_None_iff)

text \<open>
  Claim C9. The header text of the USN example parses to a mapping whose key \<^verbatim>\<open>usn\<close> holds
  the whole stripped value, and the device id of that mapping is \<^verbatim>\<open>uuid:1234-5678\<close>. For
  every mapping, the device id is absent exactly when there is no \<^verbatim>\<open>usn\<close> entry or its
  value does not fit the pattern \<^verbatim>\<open>uuid:<id>::<rest>\<close>, letters compared without regard
  to case.
\<close>

theorem usn_header_parse_and_device_id:
  "map_of (get_header_map (''USN: uuid:1234-5678::urn:schemas-upnp-org:device:MediaRenderer:1'' @ [CHR 0x0A])) ''usn''
     = Some ''uuid:1234-5678::urn:schemas-upnp-org:device:MediaRenderer:1''
   \<and> get_device_id (get_header_map (''USN: uuid:1234-5678::urn:schemas-upnp-org:device:MediaRenderer:1'' @ [CHR 0x0A]))
     = Some ''uuid:1234-5678''
   \<and> (get_device_id h = None \<longleftrightarrow>
        (map_of h ''usn'' = None \<or> (\<exists>v. map_of h ''usn'' = Some v \<and> \<not> usn_pattern_spec v)))"
proof (intro conjI)
  show "map_of (get_header_map (''USN: uuid:1234-5678::urn:schemas-upnp-org:device:MediaRenderer:1'' @ [CHR 0x0A])) ''usn''
     = Some ''uuid:1234-5678::urn:schemas-upnp-org:device:MediaRenderer:1''"
    by code_simp
  show "get_device_id (get_header_map (''USN: uuid:1234-5678::urn:schemas-upnp-org:device:MediaRenderer:1'' @ [CHR 0x0A]))
     = Some ''uuid:1234-5678''"
    by code_simp
  show "get_device_id h = None \<longleftrightarrow>
        (map_of h ''usn'' = None \<or> (\<exists>v. map_of h ''usn'' = Some v \<and> \<not> usn_pattern_spec v))"
  proof (cases "map_of h ''usn''")
    case None
    then show ?thesis by (simp add: get_device_id_def map_of_dict_keys)
  next
    case (Some v)
    have "search_uuid v = None \<longleftrightarrow> \<not> usn_pattern_spec v"
      using search_uuid_sound [of v] search_uuid_complete [of v] by (cases "search_uuid v") auto
    with Some show ?thesis by (simp add: get_device_id_def map_of_dict_keys)
  qed
qed

theorem usn_header_parse_and_device_id_witness:
  "map_of [(''st'', ''upnp:rootdevice'')] ''usn'' = None
   \<and> get_device_id [(''st'', ''upnp:rootdevice'')] = None
   \<and> get_device_id [(''usn'', ''UUID:ab::x'')] = Some ''UUID:ab''
   \<and> usn_pattern_spec ''UUID:ab::x''"
proof -
  have a: "map_of [(''st'', ''upnp:rootdevice'')] ''usn'' = None" by simp
  have b: "get_device_id [(''usn'', ''UUID:ab::x'')] = Some ''UUID:ab''" by code_simp
  have c: "map_of [(''usn'', ''UUID:ab::x'')] ''usn'' = Some ''UUID:ab::x''" by simp
  from usn_header_parse_and_device_id [of "[(''st'', ''upnp:rootdevice'')]"] a
  have d: "get_device_id [(''st'', ''upnp:rootdevice'')] = None" by blast
  from usn_header_parse_and_device_id [of "[(''usn'', ''UUID:ab::x'')]"] b c
  have "usn_pattern_spec ''UUID:ab::x''" by auto
  with a b d show ?thesis by simp
qed


section \<open>Properties of register and unregister on the error branches\<close>

text \<open>
  Claim C2, as the code has it. For every stream and every socket it already tracks,
  \<open>register\<close> with that socket raises \<^verbatim>\<open>SystemExit(2)\<close>, the request to end the interpreter,
  and not an error scoped to the connection; the object, with its sockets and its
  \<open>client_count\<close>, and the world are as before the call.
\<close>

theorem register_tracked_socket_raises_SystemExit:
  "sock \<in> set (dict_keys (sockets ps)) \<Longrightarrow>
     register b sock sn ps w = Raise (SystemExit 2) ps w"
  by (simp add: register_def)

theorem register_tracked_socket_raises_SystemExit_witness:
  "7 \<in> set (dict_keys (sockets one_client))
   \<and> register livingroom 7 None one_client world0 = Raise (SystemExit 2) one_client world0"
proof -
  have h: "7 \<in> set (dict_keys (sockets one_client))"
    by (simp add: one_client_def dict_keys_def)
  from register_tracked_socket_raises_SystemExit [OF h] h show ?thesis by simp
qed

text \<open>
  Claim C2 as stated fails: registering socket 7 a second time with the example stream
  raises \<^verbatim>\<open>SystemExit(2)\<close>.
\<close>

theorem duplicate_register_exits_counterexample:
  "register livingroom 7 None example_stream world0 = Return one_client world0
   \<and> requests_exit (register livingroom 7 None one_client world0)"
  by (simp add: one_client_def example_stream_def register_def ProcessStream_init_def dict_keys_def)

text \<open>
  Claim C3, as the code has it. For every stream and every socket it does not track,
  \<open>unregister\<close> with that socket raises \<^verbatim>\<open>SystemExit(2)\<close>; the object, with its sockets, its
  \<open>client_count\<close> and its process handles, and the world are as before the call.
\<close>

theorem unregister_untracked_socket_raises_SystemExit:
  "sock \<notin> set (dict_keys (sockets ps)) \<Longrightarrow>
     unregister sock ps w = Raise (SystemExit 2) ps w"
  by (simp add: unregister_def)

theorem unregister_untracked_socket_raises_SystemExit_witness:
  "8 \<notin> set (dict_keys (sockets one_client))
   \<and> unregister 8 one_client world0 = Raise (SystemExit 2) one_client world0"
proof -
  have h: "8 \<notin> set (dict_keys (sockets one_client))"
    by (simp add: one_client_def dict_keys_def)
  from unregister_untracked_socket_raises_SystemExit [OF h] h show ?thesis by simp
qed

text \<open>
  Claim C3 as stated fails: unregistering socket 8, which the stream with the one client 7
  does not track, raises \<^verbatim>\<open>SystemExit(2)\<close>.
\<close>

theorem unregister_untracked_exits_counterexample:
  "dict_keys (sockets one_client) = [7] \<and> requests_exit (unregister 8 one_client world0)"
  by (simp add: one_client_def unregister_def dict_keys_def)

section \<open>Properties of the StreamManager\<close>

lemma get_stream_hit:
  "map_of (streams m) p = Some r \<Longrightarrow> get_stream p b e m h = (r, m, h)"
  by (simp add: get_stream_def)

lemma get_stream_miss:
  "map_of (streams m) p = None \<Longrightarrow>
   get_stream p b e m h =
     (next_ref h, m\<lparr>streams := AList.update p (next_ref h) (streams m)\<rparr>,
      h\<lparr>objects := (objects h)(next_ref h := ProcessStream_init p (PulseaudioRecorder (monitor b)) e),
        next_ref := Suc (next_ref h)\<rparr>)"
  by (simp add: get_stream_def Let_def)

lemma get_stream_stored:
  "get_stream p b e m h = (r, m', h') \<Longrightarrow> map_of (streams m') p = Some r"
  by (cases "map_of (streams m) p") (auto simp: get_stream_hit get_stream_miss update_conv')

lemma get_stream_keeps:
  "get_stream p b e m h = (r, m', h') \<Longrightarrow> map_of (streams m) q = Some x \<Longrightarrow>
   map_of (streams m') q = Some x"
  by (cases "map_of (streams m) p") (auto simp: get_stream_hit get_stream_miss update_conv')

lemma get_stream_distinct:
  "get_stream p b e m h = (r, m', h') \<Longrightarrow> distinct (dict_keys (streams m)) \<Longrightarrow>
   distinct (dict_keys (streams m'))"
  by (cases "map_of (streams m) p") (auto simp: get_stream_hit get_stream_miss dict_keys_def distinct_update)

lemma get_stream_calls_props:
  "get_stream_calls cs m h = (rs, m', h') \<Longrightarrow>
     length rs = length cs
     \<and> (\<forall>q x. map_of (streams m) q = Some x \<longrightarrow> map_of (streams m') q = Some x)
     \<and> (\<forall>i<length cs. map_of (streams m') (fst (cs ! i)) = Some (rs ! i))
     \<and> (distinct (dict_keys (streams m)) \<longrightarrow> distinct (dict_keys (streams m')))"
proof (induction cs arbitrary: m h rs m' h')
  case Nil
  then show ?case by simp
next
  case (Cons c cs)
  obtain p b e where c: "c = (p, b, e)" by (cases c)
  obtain r m1 h1 where g: "get_stream p b e m h = (r, m1, h1)" by (cases "get_stream p b e m h")
  obtain rs2 m2 h2 where g2: "get_stream_calls cs m1 h1 = (rs2, m2, h2)"
    by (cases "get_stream_calls cs m1 h1")
  from Cons.prems c g g2 have eq: "rs = r # rs2" "m' = m2" "h' = h2" by auto
  note ih = Cons.IH [OF g2]
  have keep: "\<forall>q x. map_of (streams m) q = Some x \<longrightarrow> map_of (streams m') q = Some x"
    using ih get_stream_keeps [OF g] eq by blast
  have idx: "\<forall>i<length (c # cs). map_of (streams m') (fst ((c # cs) ! i)) = Some (rs ! i)"
  proof (intro allI impI)
    fix i assume i: "i < length (c # cs)"
    show "map_of (streams m') (fst ((c # cs) ! i)) = Some (rs ! i)"
    proof (cases i)
      case 0
      with c eq ih get_stream_stored [OF g] show ?thesis by simp
    next
      case (Suc j)
      with i eq ih show ?thesis by simp
    qed
  qed
  from ih eq keep idx get_stream_distinct [OF g] show ?case by simp
qed

text \<open>
  Claim C7. \<open>get_stream\<close> returns the object stored under the path when there is one, and
  leaves manager and heap as they are; otherwise it builds a new stream for the path, the
  recorder of the bridge's monitor and the encoder, at a fresh address, stores that address
  under the path and returns it, touching no other entry and no other object. In every
  history of lookups, two calls with the same path return the same object, and the
  dictionary keeps one entry per path.
\<close>

theorem get_stream_one_pipeline_per_path:
  "(map_of (streams m) p = Some r \<longrightarrow> get_stream p b e m h = (r, m, h))
   \<and> (map_of (streams m) p = None \<longrightarrow>
        (\<exists>m' h'. get_stream p b e m h = (next_ref h, m', h')
           \<and> objects h' (next_ref h) = ProcessStream_init p (PulseaudioRecorder (monitor b)) e
           \<and> map_of (streams m') p = Some (next_ref h)
           \<and> (\<forall>q. q \<noteq> p \<longrightarrow> map_of (streams m') q = map_of (streams m) q)
           \<and> (\<forall>a. a \<noteq> next_ref h \<longrightarrow> objects h' a = objects h a)))
   \<and> (\<forall>rs m' h'. get_stream_calls cs m h = (rs, m', h') \<longrightarrow>
        (\<forall>i<length cs. \<forall>j<length cs. fst (cs ! i) = fst (cs ! j) \<longrightarrow> rs ! i = rs ! j)
        \<and> (distinct (dict_keys (streams m)) \<longrightarrow> distinct (dict_keys (streams m'))))"
proof (intro conjI impI allI)
  assume "map_of (streams m) p = Some r"
  then show "get_stream p b e m h = (r, m, h)" by (rule get_stream_hit)
next
  assume n: "map_of (streams m) p = None"
  show "\<exists>m' h'. get_stream p b e m h = (next_ref h, m', h')
           \<and> objects h' (next_ref h) = ProcessStream_init p (PulseaudioRecorder (monitor b)) e
           \<and> map_of (streams m') p = Some (next_ref h)
           \<and> (\<forall>q. q \<noteq> p \<longrightarrow> map_of (streams m') q = map_of (streams m) q)
           \<and> (\<forall>a. a \<noteq> next_ref h \<longrightarrow> objects h' a = objects h a)"
    by (simp add: get_stream_miss [OF n] update_conv')
next
  fix rs m' h' i j
  assume g: "get_stream_calls cs m h = (rs, m', h')"
    and ij: "i < length cs" "j < length cs" "fst (cs ! i) = fst (cs ! j)"
  from get_stream_calls_props [OF g]
  have a: "\<forall>i<length cs. map_of (streams m') (fst (cs ! i)) = Some (rs ! i)" by blast
  from a ij(1) have "map_of (streams m') (fst (cs ! i)) = Some (rs ! i)" by blast
  moreover from a ij(2) have "map_of (streams m') (fst (cs ! j)) = Some (rs ! j)" by blast
  ultimately show "rs ! i = rs ! j" using ij(3) by simp
next
  fix rs m' h'
  assume "get_stream_calls cs m h = (rs, m', h')" "distinct (dict_keys (streams m))"
  with get_stream_calls_props show "distinct (dict_keys (streams m'))" by blast
qed

theorem get_stream_one_pipeline_per_path_witness:
  "map_of (streams StreamManager_init) ''/livingroom.mp3'' = None
   \<and> fst (get_stream ''/livingroom.mp3'' livingroom mp3_encoder StreamManager_init heap0) = 0
   \<and> map_of (streams \<lparr>streams = [(''/livingroom.mp3'', 0)]\<rparr>) ''/livingroom.mp3'' = Some 0
   \<and> get_stream ''/livingroom.mp3'' livingroom mp3_alternative
        \<lparr>streams = [(''/livingroom.mp3'', 0)]\<rparr> heap0
      = (0, \<lparr>streams = [(''/livingroom.mp3'', 0)]\<rparr>, heap0)
   \<and> fst (get_stream_calls [(''/livingroom.mp3'', livingroom, mp3_encoder),
                             (''/livingroom.ogg'', livingroom, ogg_encoder),
                             (''/livingroom.mp3'', livingroom, mp3_alternative)]
             StreamManager_init heap0) = [0, 1, 0]
   \<and> distinct (dict_keys (streams StreamManager_init))
   \<and> distinct (dict_keys (streams (fst (snd
        (get_stream_calls [(''/livingroom.mp3'', livingroom, mp3_encoder),
                           (''/livingroom.ogg'', livingroom, ogg_encoder),
                           (''/livingroom.mp3'', livingroom, mp3_alternative)]
           StreamManager_init heap0)))))"
proof -
  let ?cs = "[(''/livingroom.mp3'', livingroom, mp3_encoder),
              (''/livingroom.ogg'', livingroom, ogg_encoder),
              (''/livingroom.mp3'', livingroom, mp3_alternative)]"
  have none: "map_of (streams StreamManager_init) ''/livingroom.mp3'' = None"
    by (simp add: StreamManager_init_def)
  have some: "map_of (streams \<lparr>streams = [(''/livingroom.mp3'', 0)]\<rparr>) ''/livingroom.mp3'' = Some 0"
    by simp
  have d: "distinct (dict_keys (streams StreamManager_init))"
    by (simp add: StreamManager_init_def dict_keys_def)
  have rs: "fst (get_stream_calls ?cs StreamManager_init heap0) = [0, 1, 0]"
    by (simp add: get_stream_def StreamManager_init_def heap0_def)
  obtain rs m' h' where g: "get_stream_calls ?cs StreamManager_init heap0 = (rs, m', h')"
    by (cases "get_stream_calls ?cs StreamManager_init heap0")
  note t1 = get_stream_one_pipeline_per_path
    [of StreamManager_init "''/livingroom.mp3''" 0 livingroom mp3_encoder heap0 ?cs]
  note t2 = get_stream_one_pipeline_per_path
    [of "\<lparr>streams = [(''/livingroom.mp3'', 0)]\<rparr>" "''/livingroom.mp3''" 0
        livingroom mp3_alternative heap0 "[]"]
  from t1 none have a: "fst (get_stream ''/livingroom.mp3'' livingroom mp3_encoder StreamManager_init heap0) = 0"
    by (auto simp: heap0_def)
  from t2 some have b: "get_stream ''/livingroom.mp3'' livingroom mp3_alternative
        \<lparr>streams = [(''/livingroom.mp3'', 0)]\<rparr> heap0
      = (0, \<lparr>streams = [(''/livingroom.mp3'', 0)]\<rparr>, heap0)" by blast
  from t1 g d have "distinct (dict_keys (streams m'))" by blast
  with g have c: "distinct (dict_keys (streams (fst (snd (get_stream_calls ?cs StreamManager_init heap0)))))"
    by simp
  from none some a b rs d c show ?thesis by blast
qed

section \<open>Properties of the request handler\<close>

lemma lazy_until_dot_shape:
  "CHR ''.'' \<notin> set name \<Longrightarrow> CHR 0x0A \<notin> set name \<Longrightarrow>
   lazy_until_dot (name @ ''.'' @ rest) = Some (name, rest)"
  by (induction name) auto

lemma greedy_line_id: "CHR 0x0A \<notin> set s \<Longrightarrow> greedy_line s = s"
  by (auto simp: greedy_line_def takeWhile_eq_all_conv)

lemma path_first_match_shape:
  "CHR ''.'' \<notin> set name \<Longrightarrow> CHR 0x0A \<notin> set name \<Longrightarrow> CHR 0x0A \<notin> set suff \<Longrightarrow>
   path_first_match (''/'' @ name @ ''.'' @ suff) = Some (name, suff)"
  using lazy_until_dot_shape [of name suff] by (simp add: greedy_line_id)

lemma for_break_none:
  "(snd (for_break P xs var) = None) = (\<forall>x \<in> set xs. \<not> P x)"
  by (induction xs arbitrary: var) auto

lemma for_break_some:
  "snd (for_break P xs var) = Some x \<Longrightarrow>
     fst (for_break P xs var) = Some x
     \<and> (\<exists>pre post. xs = pre @ x # post \<and> P x \<and> (\<forall>y \<in> set pre. \<not> P y))"
proof (induction xs arbitrary: var)
  case Nil
  then show ?case by simp
next
  case (Cons a xs)
  show ?case
  proof (cases "P a")
    case True
    with Cons.prems have "x = a" by simp
    with True have "a # xs = [] @ x # xs \<and> P x \<and> (\<forall>y \<in> set []. \<not> P y)" by simp
    with True \<open>x = a\<close> show ?thesis by (metis for_break.simps(2) fst_conv)
  next
    case False
    with Cons.prems have s: "snd (for_break P xs (Some a)) = Some x" by simp
    from Cons.IH [OF s] obtain pre post where
      f: "fst (for_break P xs (Some a)) = Some x" and
      d: "xs = pre @ x # post" "P x" "\<forall>y \<in> set pre. \<not> P y" by blast
    from d False have "a # xs = (a # pre) @ x # post \<and> P x \<and> (\<forall>y \<in> set (a # pre). \<not> P y)"
      by simp
    with f False show ?thesis by (metis for_break.simps(2))
  qed
qed

lemma chop_request_path_resolved:
  assumes m: "path_first_match p = Some (name, suff)"
    and b: "\<exists>b \<in> set (bridges srv). short_name b = name"
    and e: "\<exists>e \<in> set (encoders srv). suffix e = suff"
  shows "\<exists>b pre e post. chop_request_path srv p = Some (b, e)
           \<and> encoders srv = pre @ e # post \<and> suffix e = suff
           \<and> (\<forall>x \<in> set pre. suffix x \<noteq> suff) \<and> b \<in> set (bridges srv) \<and> short_name b = name"
proof -
  from e have "snd (for_break (\<lambda>e. suffix e = suff) (encoders srv) None) \<noteq> None"
    by (simp add: for_break_none)
  then obtain ce where ce: "snd (for_break (\<lambda>e. suffix e = suff) (encoders srv) None) = Some ce"
    by blast
  from b have "snd (for_break (\<lambda>b. name = short_name b) (bridges srv) None) \<noteq> None"
    by (auto simp: for_break_none)
  then obtain cb where cb: "snd (for_break (\<lambda>b. name = short_name b) (bridges srv) None) = Some cb"
    by blast
  from for_break_some [OF ce] obtain pre post where
    fe: "fst (for_break (\<lambda>e. suffix e = suff) (encoders srv) None) = Some ce" and
    de: "encoders srv = pre @ ce # post" "suffix ce = suff" "\<forall>y \<in> set pre. suffix y \<noteq> suff"
    by blast
  from for_break_some [OF cb] obtain pre' post' where
    fb: "fst (for_break (\<lambda>b. name = short_name b) (bridges srv) None) = Some cb" and
    db: "bridges srv = pre' @ cb # post'" "name = short_name cb"
    by blast
  have "chop_request_path srv p = Some (cb, ce)"
    using m ce cb fe fb by (simp add: chop_request_path_def split_beta)
  with de db show ?thesis by auto
qed

lemma chop_request_path_unresolved:
  assumes m: "path_first_match p = Some (name, suff)"
    and n: "\<not> ((\<exists>b \<in> set (bridges srv). short_name b = name)
              \<and> (\<exists>e \<in> set (encoders srv). suffix e = suff))"
  shows "chop_request_path srv p = None"
proof -
  from n have "snd (for_break (\<lambda>b. name = short_name b) (bridges srv) None) = None
        \<or> snd (for_break (\<lambda>e. suffix e = suff) (encoders srv) None) = None"
    by (auto simp: for_break_none)
  with m show ?thesis by (auto simp: chop_request_path_def split_beta)
qed

text \<open>
  Claim C6. A path \<^verbatim>\<open>/name.suffix\<close> (no dot in the name, no line feed in either part) is
  split by the handler's pattern into name and suffix. When the pattern splits a path into
  name and suffix, and a bridge has that short name and an encoder that suffix, the
  response has status 200 and the one header \<^verbatim>\<open>Content-Type\<close>, with the MIME type of the
  first encoder of the list that has the suffix; when either does not resolve, or the
  pattern does not match, the status is 404. \<^verbatim>\<open>GET\<close> answers as \<^verbatim>\<open>HEAD\<close> does.
\<close>

theorem request_path_resolution:
  "(CHR ''.'' \<notin> set name \<and> CHR 0x0A \<notin> set name \<and> CHR 0x0A \<notin> set suff \<longrightarrow>
      path_first_match (''/'' @ name @ ''.'' @ suff) = Some (name, suff))
   \<and> (path_first_match p = Some (name, suff) \<longrightarrow>
        ((\<exists>b \<in> set (bridges srv). short_name b = name)
           \<and> (\<exists>e \<in> set (encoders srv). suffix e = suff) \<longrightarrow>
             status (do_HEAD srv p) = 200
             \<and> (\<exists>pre e post. encoders srv = pre @ e # post \<and> suffix e = suff
                  \<and> (\<forall>x \<in> set pre. suffix x \<noteq> suff)
                  \<and> headers (do_HEAD srv p) = [(''Content-Type'', mime_type e)]))
        \<and> (\<not> ((\<exists>b \<in> set (bridges srv). short_name b = name)
                \<and> (\<exists>e \<in> set (encoders srv). suffix e = suff)) \<longrightarrow>
             status (do_HEAD srv p) = 404))
   \<and> (path_first_match p = None \<longrightarrow> status (do_HEAD srv p) = 404)
   \<and> fst (do_GET p request sn srv h w) = do_HEAD srv p"
proof (intro conjI impI)
  assume "CHR ''.'' \<notin> set name \<and> CHR 0x0A \<notin> set name \<and> CHR 0x0A \<notin> set suff"
  then show "path_first_match (''/'' @ name @ ''.'' @ suff) = Some (name, suff)"
    using path_first_match_shape by blast
next
  assume m: "path_first_match p = Some (name, suff)"
    and r: "(\<exists>b \<in> set (bridges srv). short_name b = name)
           \<and> (\<exists>e \<in> set (encoders srv). suffix e = suff)"
  from chop_request_path_resolved [OF m] r obtain b pre e post where
    c: "chop_request_path srv p = Some (b, e)" and
    d: "encoders srv = pre @ e # post" "suffix e = suff" "\<forall>x \<in> set pre. suffix x \<noteq> suff"
    by blast
  from c show "status (do_HEAD srv p) = 200" by (simp add: do_HEAD_def handle_headers_def)
  from c have "headers (do_HEAD srv p) = [(''Content-Type'', mime_type e)]"
    by (simp add: do_HEAD_def handle_headers_def)
  with d show "\<exists>pre e post. encoders srv = pre @ e # post \<and> suffix e = suff
                  \<and> (\<forall>x \<in> set pre. suffix x \<noteq> suff)
                  \<and> headers (do_HEAD srv p) = [(''Content-Type'', mime_type e)]" by blast
next
  assume m: "path_first_match p = Some (name, suff)"
    and n: "\<not> ((\<exists>b \<in> set (bridges srv). short_name b = name)
              \<and> (\<exists>e \<in> set (encoders srv). suffix e = suff))"
  from chop_request_path_unresolved [OF m n]
  show "status (do_HEAD srv p) = 404" by (simp add: do_HEAD_def handle_headers_def)
next
  assume "path_first_match p = None"
  then show "status (do_HEAD srv p) = 404"
    by (simp add: do_HEAD_def handle_headers_def chop_request_path_def)
next
  show "fst (do_GET p request sn srv h w) = do_HEAD srv p"
    by (simp add: do_GET_def do_HEAD_def split_beta Let_def split: prod.splits option.splits outcome.splits)
qed

theorem request_path_resolution_witness:
  "path_first_match ''/livingroom.mp3'' = Some (''livingroom'', ''mp3'')
   \<and> do_HEAD example_server ''/livingroom.mp3''
       = \<lparr>status = 200, headers = [(''Content-Type'', ''audio/mpeg'')], error_message = None\<rparr>
   \<and> fst (do_GET ''/livingroom.mp3'' 7 None example_server heap0 world0)
       = \<lparr>status = 200, headers = [(''Content-Type'', ''audio/mpeg'')], error_message = None\<rparr>
   \<and> path_first_match ''/livingroom.flac'' = Some (''livingroom'', ''flac'')
   \<and> status (do_HEAD example_server ''/livingroom.flac'') = 404
   \<and> path_first_match ''/unknown.mp3'' = Some (''unknown'', ''mp3'')
   \<and> status (do_HEAD example_server ''/unknown.mp3'') = 404
   \<and> path_first_match ''/livingroom'' = None
   \<and> status (do_HEAD example_server ''/livingroom'') = 404"
proof -
  have s: "CHR ''.'' \<notin> set ''livingroom'' \<and> CHR 0x0A \<notin> set ''livingroom'' \<and> CHR 0x0A \<notin> set ''mp3''"
    by simp
  note t = request_path_resolution [of "''livingroom''" "''mp3''" "''/livingroom.mp3''"
              example_server 7 None heap0 world0]
  from t s have m1: "path_first_match ''/livingroom.mp3'' = Some (''livingroom'', ''mp3'')" by simp
  have r1: "(\<exists>b \<in> set (bridges example_server). short_name b = ''livingroom'')
           \<and> (\<exists>e \<in> set (encoders example_server). suffix e = ''mp3'')"
    by (simp add: example_server_def livingroom_def mp3_encoder_def)
  from t m1 r1 have st: "status (do_HEAD example_server ''/livingroom.mp3'') = 200" by blast
  have h1: "do_HEAD example_server ''/livingroom.mp3''
       = \<lparr>status = 200, headers = [(''Content-Type'', ''audio/mpeg'')], error_message = None\<rparr>"
    by code_simp
  from t h1 have g1: "fst (do_GET ''/livingroom.mp3'' 7 None example_server heap0 world0)
       = \<lparr>status = 200, headers = [(''Content-Type'', ''audio/mpeg'')], error_message = None\<rparr>"
    by simp
  have m2: "path_first_match ''/livingroom.flac'' = Some (''livingroom'', ''flac'')" by code_simp
  have r2: "\<not> ((\<exists>b \<in> set (bridges example_server). short_name b = ''livingroom'')
           \<and> (\<exists>e \<in> set (encoders example_server). suffix e = ''flac''))"
    by (simp add: example_server_def ogg_encoder_def mp3_encoder_def mp3_alternative_def)
  from request_path_resolution [of "''livingroom''" "''flac''" "''/livingroom.flac''" example_server]
    m2 r2 have n2: "status (do_HEAD example_server ''/livingroom.flac'') = 404" by blast
  have m3: "path_first_match ''/unknown.mp3'' = Some (''unknown'', ''mp3'')" by code_simp
  have r3: "\<not> ((\<exists>b \<in> set (bridges example_server). short_name b = ''unknown'')
           \<and> (\<exists>e \<in> set (encoders example_server). suffix e = ''mp3''))"
    by (simp add: example_server_def livingroom_def)
  from request_path_resolution [of "''unknown''" "''mp3''" "''/unknown.mp3''" example_server]
    m3 r3 have n3: "status (do_HEAD example_server ''/unknown.mp3'') = 404" by blast
  have m4: "path_first_match ''/livingroom'' = None" by code_simp
  from request_path_resolution [of _ _ "''/livingroom''" example_server] m4
  have n4: "status (do_HEAD example_server ''/livingroom'') = 404" by blast
  from m1 h1 g1 m2 n2 m3 n3 m4 n4 show ?thesis by blast
qed


section \<open>Properties of the stream: counts and handles\<close>

lemma create_processes_handles:
  "create_processes ps w = (ps', w') \<Longrightarrow>
     recorder_process ps' = Some (length (procs w))
     \<and> encoder_process ps' = Some (Suc (length (procs w)))"
  by (auto simp: create_processes_def Let_def)

lemma respond_of_handles:
  "recorder_process ps = Some r \<Longrightarrow> encoder_process ps = Some e \<Longrightarrow>
   do_processes_respond env ps = Inr (\<not> poll_exited env r \<and> \<not> poll_exited env e)"
  by (simp add: do_processes_respond_def)

lemma communicate_parts:
  "\<exists>e. encoder_process (fst (health_check env ps w)) = Some e
      \<and> recorder_process (fst (health_check env ps w)) \<noteq> None
      \<and> communicate env ps w
          = transport env e (fst (health_check env ps w)) (snd (health_check env ps w))"
proof -
  obtain ps1 w1 where p1: "(if \<not> do_processes_exist ps then create_processes ps w else (ps, w)) = (ps1, w1)"
    by (cases "if \<not> do_processes_exist ps then create_processes ps w else (ps, w)")
  have "\<exists>r e. recorder_process ps1 = Some r \<and> encoder_process ps1 = Some e"
  proof (cases "do_processes_exist ps")
    case True
    with p1 show ?thesis by (auto simp: do_processes_exist_def)
  next
    case False
    with p1 show ?thesis by (auto dest: create_processes_handles)
  qed
  then obtain r e where h1: "recorder_process ps1 = Some r" "encoder_process ps1 = Some e" by blast
  note resp = respond_of_handles [OF h1, of env]
  show ?thesis
  proof (cases "\<not> poll_exited env r \<and> \<not> poll_exited env e")
    case True
    with p1 resp h1 have hc: "health_check env ps w = (ps1, w1)"
      by (simp add: health_check_def)
    from p1 resp True h1 have "communicate env ps w = transport env e ps1 w1"
      by (simp add: communicate_def transport_def)
    with hc h1 show ?thesis by simp
  next
    case False
    obtain ps2 w2 where p2: "create_processes ps1 (cleanup ps1 w1) = (ps2, w2)"
      by (cases "create_processes ps1 (cleanup ps1 w1)")
    from create_processes_handles [OF p2] obtain e2 where
      h2: "encoder_process ps2 = Some e2" "recorder_process ps2 \<noteq> None" by simp
    from p1 resp False p2 have hc: "health_check env ps w = (ps2, w2)"
      by (simp add: health_check_def)
    from p1 resp False p2 h2 have "communicate env ps w = transport env e2 ps2 w2"
      by (simp add: communicate_def transport_def)
    with hc h2 show ?thesis by simp
  qed
qed


lemma length_update_new:
  "k \<notin> fst ` set al \<Longrightarrow> length (AList.update k v al) = Suc (length al)"
  by (induction al) auto

lemma length_delete_present:
  "distinct (map fst al) \<Longrightarrow> k \<in> fst ` set al \<Longrightarrow> Suc (length (AList.delete k al)) = length al"
proof (induction al)
  case Nil
  then show ?case by simp
next
  case (Cons a al)
  show ?case
  proof (cases "fst a = k")
    case True
    with Cons.prems have "k \<notin> fst ` set al" by auto
    with True show ?thesis by (cases a) (simp add: delete_id)
  next
    case False
    with Cons show ?thesis by (cases a) auto
  qed
qed

lemma dict_keys_delete:
  "set (dict_keys (AList.delete k al)) = set (dict_keys al) - {k}"
  by (simp add: dict_keys_def delete_keys)

lemma register_keeps_count:
  assumes "dict_wf ps" "count_matches ps"
  shows "dict_wf (outcome_stream (register b sock sn ps w))
         \<and> count_matches (outcome_stream (register b sock sn ps w))"
proof (cases "sock \<in> set (dict_keys (sockets ps))")
  case True
  with assms show ?thesis by (simp add: register_def)
next
  case False
  then have "sock \<notin> fst ` set (sockets ps)" by (simp add: dict_keys_def)
  with assms False show ?thesis
    by (simp add: register_def dict_wf_def count_matches_def dict_keys_def
                  distinct_update length_update_new)
qed

lemma unregister_tracked:
  assumes "sock \<in> set (dict_keys (sockets ps))"
  shows "\<exists>ps' w'. unregister sock ps w = Return ps' w'
           \<and> sockets ps' = AList.delete sock (sockets ps)
           \<and> client_count ps' = client_count ps - 1
           \<and> recorder_process ps' = recorder_process ps
           \<and> encoder_process ps' = encoder_process ps
           \<and> chunk_size ps' = chunk_size ps
           \<and> procs w' = procs w \<and> wire w' = wire w
           \<and> closed_socks w' = closed_socks w @ [sock]
           \<and> set (killed w) \<subseteq> set (killed w')"
  using assms
  by (auto simp: unregister_def Let_def cleanup_def kill_process_def split: option.splits)

lemma unregister_keeps_count:
  assumes "dict_wf ps" "count_matches ps"
  shows "dict_wf (outcome_stream (unregister sock ps w))
         \<and> count_matches (outcome_stream (unregister sock ps w))"
proof (cases "sock \<in> set (dict_keys (sockets ps))")
  case False
  with assms show ?thesis by (simp add: unregister_def)
next
  case True
  from unregister_tracked [OF True, of w] obtain ps' w' where
    u: "unregister sock ps w = Return ps' w'" "sockets ps' = AList.delete sock (sockets ps)"
       "client_count ps' = client_count ps - 1" by blast
  from True have k: "sock \<in> fst ` set (sockets ps)" by (simp add: dict_keys_def)
  from assms have d: "distinct (map fst (sockets ps))" by (simp add: dict_wf_def dict_keys_def)
  from length_delete_present [OF d k] have "int (length (AList.delete sock (sockets ps))) = int (length (sockets ps)) - 1"
    by linarith
  with u assms d show ?thesis
    by (simp add: dict_wf_def count_matches_def dict_keys_def distinct_delete)
qed

lemma tick_frame_refl: "tick_frame data ps w ps w"
  by (simp add: tick_frame_def)

lemma tick_frame_trans:
  assumes "tick_frame data ps w ps1 w1" "tick_frame data ps1 w1 ps2 w2"
  shows "tick_frame data ps w ps2 w2"
proof -
  from assms(1) obtain n1 where n1: "wire w1 = wire w @ n1" "\<forall>x \<in> set n1. \<exists>n. snd x = take n data"
    unfolding tick_frame_def by blast
  from assms(2) obtain n2 where n2: "wire w2 = wire w1 @ n2" "\<forall>x \<in> set n2. \<exists>n. snd x = take n data"
    unfolding tick_frame_def by blast
  from n1 n2 have "wire w2 = wire w @ (n1 @ n2) \<and> (\<forall>x \<in> set (n1 @ n2). \<exists>n. snd x = take n data)"
    by auto
  then have "\<exists>new. wire w2 = wire w @ new \<and> (\<forall>x \<in> set new. \<exists>n. snd x = take n data)" by blast
  with assms show ?thesis unfolding tick_frame_def by (simp; blast)
qed

lemma unregister_frame:
  "tick_frame data ps w (outcome_stream (unregister sock ps w)) (outcome_world (unregister sock ps w))"
proof (cases "sock \<in> set (dict_keys (sockets ps))")
  case False
  then show ?thesis by (simp add: unregister_def tick_frame_refl)
next
  case True
  from unregister_tracked [OF True, of w] obtain ps' w' where
    u: "unregister sock ps w = Return ps' w'" "sockets ps' = AList.delete sock (sockets ps)"
       "recorder_process ps' = recorder_process ps"
       "encoder_process ps' = encoder_process ps"
       "chunk_size ps' = chunk_size ps"
       "procs w' = procs w" "wire w' = wire w"
       "closed_socks w' = closed_socks w @ [sock]"
       "set (killed w) \<subseteq> set (killed w')" by blast
  from unregister_keeps_count [of ps sock w] u
  have c: "dict_wf ps \<and> count_matches ps \<longrightarrow> dict_wf ps' \<and> count_matches ps'" by simp
  from u have "set (dict_keys (sockets ps')) \<subseteq> set (dict_keys (sockets ps))"
    by (auto simp: dict_keys_delete)
  with u c show ?thesis by (auto simp: tick_frame_def)
qed

lemma select_each_frame:
  "tick_frame data ps w (outcome_stream (select_each env socks ps w))
                        (outcome_world (select_each env socks ps w))"
proof (induction socks arbitrary: ps w)
  case Nil
  then show ?case by (simp add: tick_frame_refl)
next
  case (Cons sock socks)
  show ?case
  proof (cases "select_error env sock")
    case False
    with Cons show ?thesis by simp
  next
    case True
    show ?thesis
    proof (cases "unregister sock ps w")
      case (Return ps' w')
      with unregister_frame [of data ps w sock] have "tick_frame data ps w ps' w'" by simp
      with Cons.IH [of ps' w'] True Return show ?thesis by (auto intro: tick_frame_trans)
    next
      case (Raise x ps' w')
      with unregister_frame [of data ps w sock] True show ?thesis by simp
    qed
  qed
qed

lemma read_loop_frame:
  "tick_frame data ps w (outcome_stream (read_loop env socks ps w))
                        (outcome_world (read_loop env socks ps w))"
proof (induction socks arbitrary: ps w)
  case Nil
  then show ?case by (simp add: tick_frame_refl)
next
  case (Cons sock socks)
  have step: "tick_frame data ps w
     (outcome_stream (case unregister sock ps w of
                        Return ps' w' \<Rightarrow> read_loop env socks ps' w'
                      | Raise x ps' w' \<Rightarrow> Raise x ps' w'))
     (outcome_world (case unregister sock ps w of
                        Return ps' w' \<Rightarrow> read_loop env socks ps' w'
                      | Raise x ps' w' \<Rightarrow> Raise x ps' w'))"
  proof (cases "unregister sock ps w")
    case (Return ps' w')
    with unregister_frame [of data ps w sock] have "tick_frame data ps w ps' w'" by simp
    with Cons.IH [of ps' w'] Return show ?thesis by (auto intro: tick_frame_trans)
  next
    case (Raise x ps' w')
    with unregister_frame [of data ps w sock] show ?thesis by simp
  qed
  with Cons.IH [of ps w] show ?case
    by (simp split: recv_res.splits)
qed

lemma write_loop_frame:
  "write_loop env data socks ps w = Some out \<Longrightarrow>
   tick_frame data ps w (outcome_stream out) (outcome_world out)"
proof (induction socks arbitrary: ps w)
  case Nil
  then show ?case by (auto simp: tick_frame_refl)
next
  case (Cons sock socks)
  from Cons.prems obtain ok n where sd: "send_data (send_result env sock) data 0 0 = Some (ok, n)"
    by (auto split: option.splits)
  define w1 where "w1 = w\<lparr>wire := wire w @ [(sock, take n data)]\<rparr>"
  have f1: "tick_frame data ps w ps w1"
    unfolding tick_frame_def w1_def by auto
  show ?case
  proof (cases ok)
    case True
    with Cons.prems sd have "write_loop env data socks ps w1 = Some out"
      by (simp add: w1_def)
    from Cons.IH [OF this] f1 show ?thesis by (rule tick_frame_trans [rotated])
  next
    case False
    show ?thesis
    proof (cases "unregister sock ps w1")
      case (Return ps' w')
      with unregister_frame [of data ps w1 sock] have f2: "tick_frame data ps w1 ps' w'" by simp
      from Cons.prems sd False Return have "write_loop env data socks ps' w' = Some out"
        by (simp add: w1_def)
      from Cons.IH [OF this] have "tick_frame data ps' w' (outcome_stream out) (outcome_world out)" .
      with f1 f2 show ?thesis by (blast intro: tick_frame_trans)
    next
      case (Raise x ps' w')
      with unregister_frame [of data ps w1 sock] have f2: "tick_frame data ps w1 ps' w'" by simp
      from Cons.prems sd False Raise have "out = Raise x ps' w'"
        by (simp add: w1_def)
      with f1 f2 show ?thesis by (auto intro: tick_frame_trans)
    qed
  qed
qed

lemma transport_frame:
  assumes "transport env e ps w = Some out"
  shows "tick_frame (take (chunk_size ps) (stdout_data env e)) ps w
           (outcome_stream out) (outcome_world out)"
proof (cases "\<exists>sock \<in> set (dict_keys (sockets ps)). select_error env sock")
  case True
  with assms have "out = select_each env (dict_keys (sockets ps)) ps w"
    by (simp add: transport_def)
  then show ?thesis by (simp add: select_each_frame)
next
  case False
  let ?data = "take (chunk_size ps) (stdout_data env e)"
  let ?socks = "dict_keys (sockets ps)"
  from assms False obtain out1 where
    w: "write_loop env ?data (filter (writable env) ?socks) ps w = Some out1"
    by (auto simp: transport_def Let_def split: option.splits)
  note f1 = write_loop_frame [OF w]
  show ?thesis
  proof (cases out1)
    case (Raise x ps3 w3)
    with assms False w have "out = out1" by (simp add: transport_def)
    with f1 show ?thesis by simp
  next
    case (Return ps3 w3)
    with assms False w have "out = read_loop env (filter (readable env) ?socks) ps3 w3"
      by (simp add: transport_def)
    with f1 Return read_loop_frame [of ?data ps3 w3 env "filter (readable env) ?socks"]
    show ?thesis by (auto intro: tick_frame_trans)
  qed
qed

lemma health_check_keeps:
  "sockets (fst (health_check env ps w)) = sockets ps
   \<and> client_count (fst (health_check env ps w)) = client_count ps
   \<and> chunk_size (fst (health_check env ps w)) = chunk_size ps
   \<and> is_running (fst (health_check env ps w)) = is_running ps
   \<and> wire (snd (health_check env ps w)) = wire w
   \<and> closed_socks (snd (health_check env ps w)) = closed_socks w
   \<and> set (killed w) \<subseteq> set (killed (snd (health_check env ps w)))"
  by (auto simp: health_check_def create_processes_def cleanup_def kill_process_def Let_def
           split: option.splits)

lemma communicate_keeps_count:
  assumes c: "communicate env ps w = Some out" and i: "dict_wf ps" "count_matches ps"
  shows "dict_wf (outcome_stream out) \<and> count_matches (outcome_stream out)"
proof -
  from communicate_parts [of env ps w] c obtain e where
    t: "transport env e (fst (health_check env ps w)) (snd (health_check env ps w)) = Some out"
    by auto
  from i health_check_keeps [of env ps w]
  have "dict_wf (fst (health_check env ps w)) \<and> count_matches (fst (health_check env ps w))"
    by (simp add: dict_wf_def count_matches_def)
  with transport_frame [OF t] show ?thesis by (simp add: tick_frame_def)
qed

lemma exec_call_keeps_count:
  assumes "exec_call c ps w = Some out" "dict_wf ps" "count_matches ps"
  shows "dict_wf (outcome_stream out) \<and> count_matches (outcome_stream out)"
proof (cases c)
  case (Register b sock sn)
  with assms register_keeps_count [of ps b sock sn w] show ?thesis by auto
next
  case (Unregister sock)
  with assms unregister_keeps_count [of ps sock w] show ?thesis by auto
next
  case (Tick env)
  show ?thesis
  proof (cases "is_running ps")
    case True
    with assms Tick have "communicate env ps w = Some out" by (simp add: update_thread_step_def)
    from communicate_keeps_count [OF this assms(2,3)] show ?thesis .
  next
    case False
    with assms Tick show ?thesis by (auto simp: update_thread_step_def)
  qed
qed

lemma run_keeps_count:
  "run cs ps w = Some out \<Longrightarrow> dict_wf ps \<Longrightarrow> count_matches ps \<Longrightarrow>
   dict_wf (outcome_stream out) \<and> count_matches (outcome_stream out)"
proof (induction cs arbitrary: ps w)
  case Nil
  then show ?case by auto
next
  case (Cons c cs)
  from Cons.prems(1) obtain o1 where e: "exec_call c ps w = Some o1"
    by (auto split: option.splits)
  note k = exec_call_keeps_count [OF e Cons.prems(2,3)]
  show ?case
  proof (cases o1)
    case (Return ps' w')
    with Cons.prems(1) e have "run cs ps' w' = Some out" by simp
    from Cons.IH [OF this] k Return show ?thesis by simp
  next
    case (Raise x ps' w')
    with Cons.prems(1) e have "out = o1" by simp
    with k show ?thesis by simp
  qed
qed

lemma init_count: "dict_wf (ProcessStream_init p r e) \<and> count_matches (ProcessStream_init p r e)"
  by (simp add: dict_wf_def count_matches_def ProcessStream_init_def dict_keys_def)

text \<open>
  Claim C8. \<open>register\<close> and \<open>unregister\<close>, whether they return or raise, keep
  \<open>client_count\<close> equal to the number of entries of the socket dictionary; so after every
  history of register, unregister and tick calls on a new stream the two agree.
\<close>

theorem client_count_is_socket_count:
  "(dict_wf ps \<and> count_matches ps \<longrightarrow>
      count_matches (outcome_stream (register b sock sn ps w))
      \<and> dict_wf (outcome_stream (register b sock sn ps w))
      \<and> count_matches (outcome_stream (unregister sock ps w))
      \<and> dict_wf (outcome_stream (unregister sock ps w)))
   \<and> (run cs (ProcessStream_init p r e) w0 = Some out \<longrightarrow>
        count_matches (outcome_stream out) \<and> dict_wf (outcome_stream out))"
  using register_keeps_count [of ps b sock sn w] unregister_keeps_count [of ps sock w]
        run_keeps_count [of cs "ProcessStream_init p r e" w0 out] init_count [of p r e]
  by blast

theorem client_count_is_socket_count_witness:
  "dict_wf one_client \<and> count_matches one_client
   \<and> count_matches (outcome_stream (register livingroom 8 None one_client world0))
   \<and> client_count (outcome_stream (register livingroom 8 None one_client world0)) = 2
   \<and> count_matches (outcome_stream (unregister 7 one_client world0))
   \<and> client_count (outcome_stream (unregister 7 one_client world0)) = 0
   \<and> map_option (\<lambda>out. (client_count (outcome_stream out), dict_keys (sockets (outcome_stream out))))
       (run [Register livingroom 7 None, Register livingroom 8 None, Tick quiet_env, Unregister 7]
          example_stream world0) = Some (1, [8])
   \<and> map_option (\<lambda>out. count_matches (outcome_stream out))
       (run [Register livingroom 7 None, Register livingroom 8 None, Tick quiet_env, Unregister 7]
          example_stream world0) = Some True"
proof -
  let ?cs = "[Register livingroom 7 None, Register livingroom 8 None, Tick quiet_env, Unregister 7]"
  have h: "dict_wf one_client \<and> count_matches one_client"
    by (simp add: dict_wf_def count_matches_def one_client_def dict_keys_def)
  have r: "client_count (outcome_stream (register livingroom 8 None one_client world0)) = 2"
    by (simp add: register_def one_client_def dict_keys_def example_stream_def ProcessStream_init_def)
  have u: "client_count (outcome_stream (unregister 7 one_client world0)) = 0"
    by (simp add: unregister_def one_client_def dict_keys_def example_stream_def ProcessStream_init_def)
  have e: "map_option (\<lambda>out. (client_count (outcome_stream out), dict_keys (sockets (outcome_stream out))))
       (run ?cs example_stream world0) = Some (1, [8])"
    by code_simp
  then obtain out where o: "run ?cs example_stream world0 = Some out" by blast
  note t = client_count_is_socket_count
    [of one_client livingroom 8 None world0 ?cs "''/livingroom.mp3''"
        "PulseaudioRecorder ''livingroom.monitor''" mp3_encoder world0 out]
  from t h have a: "count_matches (outcome_stream (register livingroom 8 None one_client world0))"
    by blast
  note t7 = client_count_is_socket_count [of one_client livingroom 7 None world0]
  from t7 h have b: "count_matches (outcome_stream (unregister 7 one_client world0))"
    by blast
  from t o have "count_matches (outcome_stream out)" by (simp add: example_stream_def)
  with o have c: "map_option (\<lambda>out. count_matches (outcome_stream out))
       (run ?cs example_stream world0) = Some True" by simp
  from h r u e a b c show ?thesis by blast
qed

text \<open>
  The tick with the failures of \<^verbatim>\<open>Popen\<close>: what it does to the handles, and that it is
  \<open>communicate\<close> when no \<^verbatim>\<open>Popen\<close> fails.
\<close>

lemma create_processes_os_handles:
  "(recorder_process ps \<noteq> None \<longrightarrow>
      recorder_process (outcome_stream (create_processes_os pf ps w)) \<noteq> None)
   \<and> (encoder_process ps \<noteq> None \<longrightarrow>
      encoder_process (outcome_stream (create_processes_os pf ps w)) \<noteq> None)"
  by (simp add: create_processes_os_def Let_def)

lemma create_processes_os_returns:
  "create_processes_os pf ps w = Return ps' w' \<Longrightarrow>
     recorder_process ps' \<noteq> None \<and> encoder_process ps' \<noteq> None"
  by (auto simp: create_processes_os_def Let_def split: if_splits)

lemma create_processes_os_succeeds:
  "\<forall>q. \<not> pf q \<Longrightarrow>
   create_processes_os pf ps w = Return (fst (create_processes ps w)) (snd (create_processes ps w))"
  by (simp add: create_processes_os_def create_processes_def Let_def)

lemma respond_needs_recorder:
  "do_processes_respond env ps = Inr b \<Longrightarrow> recorder_process ps \<noteq> None"
  by (auto simp: do_processes_respond_def split: option.splits)

lemma communicate_os_cases:
  assumes "communicate_os pf env ps w = Some out"
  shows "(\<exists>x. out = Raise x (outcome_stream out) (outcome_world out)
            \<and> (recorder_process ps \<noteq> None \<longrightarrow> recorder_process (outcome_stream out) \<noteq> None)
            \<and> (encoder_process ps \<noteq> None \<longrightarrow> encoder_process (outcome_stream out) \<noteq> None))
         \<or> (\<exists>ps2 w2 e. transport env e ps2 w2 = Some out
               \<and> encoder_process ps2 = Some e \<and> recorder_process ps2 \<noteq> None)"
proof -
  let ?s1 = "if \<not> do_processes_exist ps then create_processes_os pf ps w else Return ps w"
  have m1: "(recorder_process ps \<noteq> None \<longrightarrow> recorder_process (outcome_stream ?s1) \<noteq> None)
          \<and> (encoder_process ps \<noteq> None \<longrightarrow> encoder_process (outcome_stream ?s1) \<noteq> None)"
    using create_processes_os_handles [of ps pf w] by simp
  show ?thesis
  proof (cases ?s1)
    case (Raise x ps1 w1)
    with assms have "out = Raise x ps1 w1" by (simp add: communicate_os_def)
    with m1 Raise show ?thesis by auto
  next
    case (Return ps1 w1)
    note s1 = this
    from m1 s1 have k1: "recorder_process ps \<noteq> None \<longrightarrow> recorder_process ps1 \<noteq> None"
      "encoder_process ps \<noteq> None \<longrightarrow> encoder_process ps1 \<noteq> None" by simp_all
    show ?thesis
    proof (cases "do_processes_respond env ps1")
      case (Inl x)
      with assms s1 have "out = Raise x ps1 w1" by (simp add: communicate_os_def)
      with k1 show ?thesis by auto
    next
      case (Inr respond)
      note rs = this
      let ?s2 = "if \<not> respond then create_processes_os pf ps1 (cleanup ps1 w1) else Return ps1 w1"
      have m2: "(recorder_process ps1 \<noteq> None \<longrightarrow> recorder_process (outcome_stream ?s2) \<noteq> None)
          \<and> (encoder_process ps1 \<noteq> None \<longrightarrow> encoder_process (outcome_stream ?s2) \<noteq> None)"
        using create_processes_os_handles [of ps1 pf "cleanup ps1 w1"] by simp
      show ?thesis
      proof (cases ?s2)
        case (Raise x ps2 w2)
        with assms s1 rs have "out = Raise x ps2 w2" by (simp add: communicate_os_def)
        with m2 k1 Raise show ?thesis by auto
      next
        case (Return ps2 w2)
        note s2 = this
        from respond_needs_recorder [OF rs] m2 s2 have r2: "recorder_process ps2 \<noteq> None" by simp
        show ?thesis
        proof (cases "encoder_process ps2")
          case None
          with assms s1 rs s2 have "out = Raise AttributeError ps2 w2"
            by (simp add: communicate_os_def)
          with m2 k1 s2 show ?thesis by auto
        next
          case (Some e)
          with assms s1 rs s2 have "transport env e ps2 w2 = Some out"
            by (simp add: communicate_os_def transport_def)
          with Some r2 show ?thesis by blast
        qed
      qed
    qed
  qed
qed

lemma communicate_os_handles:
  assumes "communicate_os pf env ps w = Some out"
  shows "(recorder_process ps \<noteq> None \<longrightarrow> recorder_process (outcome_stream out) \<noteq> None)
         \<and> (encoder_process ps \<noteq> None \<longrightarrow> encoder_process (outcome_stream out) \<noteq> None)
         \<and> ((\<exists>ps' w'. out = Return ps' w') \<longrightarrow>
              recorder_process (outcome_stream out) \<noteq> None
              \<and> encoder_process (outcome_stream out) \<noteq> None)"
proof -
  from communicate_os_cases [OF assms] show ?thesis
  proof
    assume "\<exists>x. out = Raise x (outcome_stream out) (outcome_world out)
            \<and> (recorder_process ps \<noteq> None \<longrightarrow> recorder_process (outcome_stream out) \<noteq> None)
            \<and> (encoder_process ps \<noteq> None \<longrightarrow> encoder_process (outcome_stream out) \<noteq> None)"
    then show ?thesis by (cases out) auto
  next
    assume "\<exists>ps2 w2 e. transport env e ps2 w2 = Some out
               \<and> encoder_process ps2 = Some e \<and> recorder_process ps2 \<noteq> None"
    then obtain ps2 w2 e where t: "transport env e ps2 w2 = Some out"
      and h: "encoder_process ps2 = Some e" "recorder_process ps2 \<noteq> None" by blast
    from transport_frame [OF t] h show ?thesis by (simp add: tick_frame_def)
  qed
qed

lemma communicate_os_succeeds:
  assumes "\<forall>q. \<not> pf q"
  shows "communicate_os pf env ps w = communicate env ps w"
proof -
  note c = create_processes_os_succeeds [OF assms]
  obtain ps1 w1 where p1: "(if \<not> do_processes_exist ps then create_processes ps w else (ps, w)) = (ps1, w1)"
    by (cases "if \<not> do_processes_exist ps then create_processes ps w else (ps, w)")
  then have s1: "(if \<not> do_processes_exist ps then create_processes_os pf ps w else Return ps w)
                  = Return ps1 w1"
    by (auto simp: c split: if_splits)
  show ?thesis
  proof (cases "do_processes_respond env ps1")
    case (Inl x)
    with p1 s1 show ?thesis by (simp add: communicate_os_def communicate_def)
  next
    case (Inr respond)
    obtain ps2 w2 where p2: "(if \<not> respond then create_processes ps1 (cleanup ps1 w1) else (ps1, w1)) = (ps2, w2)"
      by (cases "if \<not> respond then create_processes ps1 (cleanup ps1 w1) else (ps1, w1)")
    then have s2: "(if \<not> respond then create_processes_os pf ps1 (cleanup ps1 w1) else Return ps1 w1)
                  = Return ps2 w2"
      by (auto simp: c split: if_splits)
    from p1 s1 Inr p2 s2 show ?thesis
      by (simp add: communicate_os_def communicate_def)
  qed
qed

lemma register_handles:
  "recorder_process (outcome_stream (register b sock sn ps w)) = recorder_process ps
   \<and> encoder_process (outcome_stream (register b sock sn ps w)) = encoder_process ps"
  by (simp add: register_def Let_def)

lemma unregister_handles:
  "recorder_process (outcome_stream (unregister sock ps w)) = recorder_process ps
   \<and> encoder_process (outcome_stream (unregister sock ps w)) = encoder_process ps"
  using unregister_frame [of "[]" ps w sock] by (simp add: tick_frame_def)

lemma unregister_last_client:
  assumes "unregister sock ps w = Return ps' w'" "sockets ps' = []"
  shows "recorder_process ps' = recorder_process ps
         \<and> encoder_process ps' = encoder_process ps
         \<and> \<not> is_running ps' \<and> client_count ps' = client_count ps - 1
         \<and> (\<forall>q. recorder_process ps' = Some q \<or> encoder_process ps' = Some q
                \<longrightarrow> q \<in> set (killed w'))"
  using assms
  by (auto simp: unregister_def Let_def cleanup_def kill_process_def
           split: if_splits option.splits)

text \<open>
  Claim C4, as the code has it. A tick that returns leaves both process handles set. Once
  a handle is set, no tick, register or unregister makes it \<^verbatim>\<open>None\<close> again, whether the call
  returns or raises, also when a \<^verbatim>\<open>Popen\<close> fails. And when the last client unregisters,
  \<open>client_count\<close> is back at zero, the update thread is paused and the processes of both
  handles are killed, while the handles stay as they were.
\<close>

theorem handles_kept_after_last_client:
  "(communicate_os pf env ps w = Some (Return ps' w') \<longrightarrow>
      recorder_process ps' \<noteq> None \<and> encoder_process ps' \<noteq> None)
   \<and> (communicate_os pf env ps w = Some out \<or> out = register b sock sn ps w
        \<or> out = unregister sock ps w \<longrightarrow>
      (recorder_process ps \<noteq> None \<longrightarrow> recorder_process (outcome_stream out) \<noteq> None)
      \<and> (encoder_process ps \<noteq> None \<longrightarrow> encoder_process (outcome_stream out) \<noteq> None))
   \<and> (unregister sock ps w = Return ps1 w1 \<and> sockets ps1 = [] \<longrightarrow>
      recorder_process ps1 = recorder_process ps
      \<and> encoder_process ps1 = encoder_process ps
      \<and> \<not> is_running ps1
      \<and> client_count ps1 = client_count ps - 1
      \<and> (dict_wf ps \<and> count_matches ps \<longrightarrow> client_count ps1 = 0)
      \<and> (\<forall>q. recorder_process ps1 = Some q \<or> encoder_process ps1 = Some q
             \<longrightarrow> q \<in> set (killed w1)))"
proof (intro conjI impI)
  assume "communicate_os pf env ps w = Some (Return ps' w')"
  from communicate_os_handles [OF this]
  show "recorder_process ps' \<noteq> None" "encoder_process ps' \<noteq> None" by simp_all
next
  assume a: "communicate_os pf env ps w = Some out \<or> out = register b sock sn ps w
        \<or> out = unregister sock ps w"
  have m: "(recorder_process ps \<noteq> None \<longrightarrow> recorder_process (outcome_stream out) \<noteq> None)
      \<and> (encoder_process ps \<noteq> None \<longrightarrow> encoder_process (outcome_stream out) \<noteq> None)"
    using a communicate_os_handles [of pf env ps w out] register_handles [of b sock sn ps w]
      unregister_handles [of sock ps w] by auto
  {
    assume "recorder_process ps \<noteq> None"
    with m show "recorder_process (outcome_stream out) \<noteq> None" by simp
  }
  {
    assume "encoder_process ps \<noteq> None"
    with m show "encoder_process (outcome_stream out) \<noteq> None" by simp
  }
next
  assume a: "unregister sock ps w = Return ps1 w1 \<and> sockets ps1 = []"
  then have u: "unregister sock ps w = Return ps1 w1" and s: "sockets ps1 = []" by simp_all
  note l = unregister_last_client [OF u s]
  from l show "recorder_process ps1 = recorder_process ps" by simp
  from l show "encoder_process ps1 = encoder_process ps" by simp
  from l show "\<not> is_running ps1" by simp
  from l show "client_count ps1 = client_count ps - 1" by simp
  from l show "\<forall>q. recorder_process ps1 = Some q \<or> encoder_process ps1 = Some q
             \<longrightarrow> q \<in> set (killed w1)" by simp
  {
    assume "dict_wf ps \<and> count_matches ps"
    with unregister_keeps_count [of ps sock w] u have "count_matches ps1" by simp
    with s show "client_count ps1 = 0" by (simp add: count_matches_def)
  }
qed

theorem handles_kept_after_last_client_witness:
  "communicate_os (\<lambda>q. False) quiet_env one_client world0
     = Some (Return one_client_streaming world_streaming)
   \<and> recorder_process one_client_streaming = Some 0
   \<and> encoder_process one_client_streaming = Some 1
   \<and> map_option (\<lambda>out. (requests_exit out, recorder_process (outcome_stream out),
                         encoder_process (outcome_stream out), killed (outcome_world out)))
        (communicate_os (\<lambda>q. True) crash_env one_client_streaming world_streaming)
      = Some (False, Some 0, Some 1, [1, 0])
   \<and> map_option (\<lambda>out. (recorder_process (outcome_stream out), encoder_process (outcome_stream out)))
        (communicate_os (\<lambda>q. q = 1) quiet_env one_client world0)
      = Some (Some 0, None)
   \<and> sockets (outcome_stream (unregister 7 one_client_streaming world_streaming)) = []
   \<and> client_count (outcome_stream (unregister 7 one_client_streaming world_streaming)) = 0
   \<and> encoder_process (outcome_stream (unregister 7 one_client_streaming world_streaming)) = Some 1
   \<and> recorder_process (outcome_stream (unregister 7 one_client_streaming world_streaming)) = Some 0
   \<and> \<not> is_running (outcome_stream (unregister 7 one_client_streaming world_streaming))
   \<and> 0 \<in> set (killed (outcome_world (unregister 7 one_client_streaming world_streaming)))
   \<and> 1 \<in> set (killed (outcome_world (unregister 7 one_client_streaming world_streaming)))"
proof -
  let ?u = "unregister 7 one_client_streaming world_streaming"
  have r: "communicate_os (\<lambda>q. False) quiet_env one_client world0
     = Some (Return one_client_streaming world_streaming)" by code_simp
  have e: "encoder_process one_client_streaming = Some 1" "recorder_process one_client_streaming = Some 0"
    by (simp_all add: one_client_streaming_def)
  have f: "map_option (\<lambda>out. (requests_exit out, recorder_process (outcome_stream out),
                         encoder_process (outcome_stream out), killed (outcome_world out)))
        (communicate_os (\<lambda>q. True) crash_env one_client_streaming world_streaming)
      = Some (False, Some 0, Some 1, [1, 0])" by code_simp
  have g: "map_option (\<lambda>out. (recorder_process (outcome_stream out), encoder_process (outcome_stream out)))
        (communicate_os (\<lambda>q. q = 1) quiet_env one_client world0)
      = Some (Some 0, None)" by code_simp
  have cm: "dict_wf one_client_streaming \<and> count_matches one_client_streaming"
    by (simp add: dict_wf_def count_matches_def one_client_streaming_def one_client_def dict_keys_def)
  obtain ps1 w1 where u: "?u = Return ps1 w1" "sockets ps1 = []"
    by (simp add: unregister_def one_client_streaming_def one_client_def dict_keys_def
          example_stream_def ProcessStream_init_def Let_def)
  note t = handles_kept_after_last_client
    [of "\<lambda>q. False" quiet_env one_client world0 one_client_streaming world_streaming]
  from t r have "recorder_process one_client_streaming \<noteq> None
     \<and> encoder_process one_client_streaming \<noteq> None" by blast
  note t3 = handles_kept_after_last_client [of _ _ one_client_streaming world_streaming _ _ _ _ 7 _ ps1 w1]
  from t3 u cm have k: "recorder_process ps1 = recorder_process one_client_streaming
      \<and> encoder_process ps1 = encoder_process one_client_streaming
      \<and> \<not> is_running ps1
      \<and> client_count ps1 = 0
      \<and> (\<forall>q. recorder_process ps1 = Some q \<or> encoder_process ps1 = Some q
             \<longrightarrow> q \<in> set (killed w1))"
    by blast
  with e have "0 \<in> set (killed w1)" "1 \<in> set (killed w1)" by auto
  with r e f g u k show ?thesis by simp
qed

text \<open>
  Claim C4 as stated fails: after one client registered, one tick ran and the client
  unregistered, \<open>client_count\<close> is zero and both handles are still set, to the two killed
  processes.
\<close>

theorem handles_not_reset_counterexample:
  "(case run [Register livingroom 7 None, Tick quiet_env, Unregister 7] example_stream world0 of
      Some (Return ps w) \<Rightarrow>
        client_count ps = 0 \<and> sockets ps = []
        \<and> recorder_process ps = Some 0 \<and> encoder_process ps = Some 1
        \<and> killed w = [1, 0]
    | _ \<Rightarrow> False)"
  by code_simp

section \<open>Properties of the tick\<close>

lemma send_data_progress:
  assumes p: "\<forall>k. answers k \<noteq> Sent 0"
  shows "\<exists>ok n. send_data answers data bs k = Some (ok, n) \<and> (ok \<longrightarrow> length data \<le> n)"
proof (induction "length data - bs" arbitrary: bs k rule: less_induct)
  case less
  show ?case
  proof (cases "bs < length data")
    case False
    then have "send_data answers data bs k = Some (True, bs)"
      by (subst send_data.simps) simp
    with False show ?thesis by auto
  next
    case True
    show ?thesis
    proof (cases "answers k")
      case SendError
      with True have "send_data answers data bs k = Some (False, bs)"
        by (subst send_data.simps) simp
      then show ?thesis by auto
    next
      case (Sent n)
      with p have "n \<noteq> 0" by metis
      with True have "length data - (bs + n) < length data - bs" by simp
      from less [OF this, of "Suc k"] obtain ok m where
        r: "send_data answers data (bs + n) (Suc k) = Some (ok, m)" "ok \<longrightarrow> length data \<le> m"
        by blast
      from True Sent have "send_data answers data bs k = send_data answers data (bs + n) (Suc k)"
        by (subst send_data.simps) simp
      with r show ?thesis by auto
    qed
  qed
qed





lemma delete_as_filter: "AList.delete k al = filter (\<lambda>kv. fst kv \<noteq> k) al"
  by (induction al) (auto simp: AList.delete_eq)

lemma send_raises_iff:
  "send_data (send_result env sock) data 0 0 = Some (ok, n) \<Longrightarrow>
   send_raises env sock data = (\<not> ok) \<and> sent_bytes env sock data = take n data"
  by (cases ok) (simp_all add: send_raises_def sent_bytes_def)

lemma write_loop_exact:
  assumes "distinct socks" "set socks \<subseteq> set (dict_keys (sockets ps))"
    "distinct (dict_keys (sockets ps))"
    "\<forall>sock \<in> set socks. \<forall>k. send_result env sock k \<noteq> Sent 0"
  shows "\<exists>ps' w'. write_loop env data socks ps w = Some (Return ps' w')
     \<and> sockets ps' = filter (\<lambda>kv. \<not> (fst kv \<in> set socks \<and> send_raises env (fst kv) data)) (sockets ps)
     \<and> wire w' = wire w @ map (\<lambda>s. (s, sent_bytes env s data)) socks
     \<and> set (closed_socks w') = set (closed_socks w) \<union> {s \<in> set socks. send_raises env s data}"
  using assms
proof (induction socks arbitrary: ps w)
  case Nil
  then show ?case by simp
next
  case (Cons sock socks)
  from Cons.prems have pr: "\<forall>k. send_result env sock k \<noteq> Sent 0" by simp
  from send_data_progress [OF pr, of data 0 0] obtain ok n where
    sd: "send_data (send_result env sock) data 0 0 = Some (ok, n)" by blast
  note sr = send_raises_iff [OF sd]
  define w1 where "w1 = w\<lparr>wire := wire w @ [(sock, take n data)]\<rparr>"
  from Cons.prems have rest: "distinct socks" "sock \<notin> set socks"
    "\<forall>s \<in> set socks. \<forall>k. send_result env s k \<noteq> Sent 0" by simp_all
  show ?case
  proof (cases ok)
    case True
    from Cons.prems have sub: "set socks \<subseteq> set (dict_keys (sockets ps))" by simp
    from Cons.IH [OF rest(1) sub Cons.prems(3) rest(3), of w1] obtain ps' w' where
      ih: "write_loop env data socks ps w1 = Some (Return ps' w')"
          "sockets ps' = filter (\<lambda>kv. \<not> (fst kv \<in> set socks \<and> send_raises env (fst kv) data)) (sockets ps)"
          "wire w' = wire w1 @ map (\<lambda>s. (s, sent_bytes env s data)) socks"
          "set (closed_socks w') = set (closed_socks w1) \<union> {s \<in> set socks. send_raises env s data}"
      by blast
    from sd True ih(1) have a: "write_loop env data (sock # socks) ps w = Some (Return ps' w')"
      by (simp add: w1_def)
    from True sr have nr: "\<not> send_raises env sock data" by simp
    have b: "sockets ps' = filter (\<lambda>kv. \<not> (fst kv \<in> set (sock # socks) \<and> send_raises env (fst kv) data)) (sockets ps)"
      unfolding ih(2) using nr by (intro filter_cong) auto
    from ih(3) sr have c: "wire w' = wire w @ map (\<lambda>s. (s, sent_bytes env s data)) (sock # socks)"
      by (simp add: w1_def)
    from ih(4) nr have d: "set (closed_socks w') = set (closed_socks w) \<union> {s \<in> set (sock # socks). send_raises env s data}"
      by (auto simp: w1_def)
    from a b c d show ?thesis by blast
  next
    case False
    from Cons.prems have tr: "sock \<in> set (dict_keys (sockets ps))" by simp
    from unregister_tracked [OF tr, of w1] obtain ps1 w2 where
      u: "unregister sock ps w1 = Return ps1 w2"
         "sockets ps1 = AList.delete sock (sockets ps)"
         "wire w2 = wire w1" "closed_socks w2 = closed_socks w1 @ [sock]" by blast
    from Cons.prems rest(2) u(2) have sub: "set socks \<subseteq> set (dict_keys (sockets ps1))"
      by (auto simp: dict_keys_delete)
    from Cons.prems(3) u(2) have dk: "distinct (dict_keys (sockets ps1))"
      by (simp add: dict_keys_def distinct_delete)
    from Cons.IH [OF rest(1) sub dk rest(3), of w2] obtain ps' w' where
      ih: "write_loop env data socks ps1 w2 = Some (Return ps' w')"
          "sockets ps' = filter (\<lambda>kv. \<not> (fst kv \<in> set socks \<and> send_raises env (fst kv) data)) (sockets ps1)"
          "wire w' = wire w2 @ map (\<lambda>s. (s, sent_bytes env s data)) socks"
          "set (closed_socks w') = set (closed_socks w2) \<union> {s \<in> set socks. send_raises env s data}"
      by blast
    from sd False u(1) ih(1) have a: "write_loop env data (sock # socks) ps w = Some (Return ps' w')"
      by (simp add: w1_def)
    from False sr have r: "send_raises env sock data" by simp
    have b: "sockets ps' = filter (\<lambda>kv. \<not> (fst kv \<in> set (sock # socks) \<and> send_raises env (fst kv) data)) (sockets ps)"
      unfolding ih(2) u(2) delete_as_filter filter_filter using r
      by (intro filter_cong) auto
    from ih(3) u(3) sr have c: "wire w' = wire w @ map (\<lambda>s. (s, sent_bytes env s data)) (sock # socks)"
      by (simp add: w1_def)
    from ih(4) u(4) r have d: "set (closed_socks w') = set (closed_socks w) \<union> {s \<in> set (sock # socks). send_raises env s data}"
      by (auto simp: w1_def)
    from a b c d show ?thesis by blast
  qed
qed

lemma read_loop_exact:
  "\<exists>ps' w'. read_loop env socks ps w = Return ps' w'
     \<and> sockets ps' = filter (\<lambda>kv. \<not> (fst kv \<in> set socks \<and> recv_closes env (fst kv))) (sockets ps)
     \<and> wire w' = wire w
     \<and> set (closed_socks w) \<subseteq> set (closed_socks w')"
proof (induction socks arbitrary: ps w)
  case Nil
  then show ?case by simp
next
  case (Cons sock socks)
  show ?case
  proof (cases "sock \<in> set (dict_keys (sockets ps)) \<and> recv_closes env sock")
    case True
    then have tr: "sock \<in> set (dict_keys (sockets ps))" and rc: "recv_closes env sock" by simp_all
    from unregister_tracked [OF tr, of w] obtain ps1 w1 where
      u: "unregister sock ps w = Return ps1 w1"
         "sockets ps1 = AList.delete sock (sockets ps)"
         "wire w1 = wire w" "closed_socks w1 = closed_socks w @ [sock]" by blast
    from Cons.IH [of ps1 w1] obtain ps' w' where
      ih: "read_loop env socks ps1 w1 = Return ps' w'"
          "sockets ps' = filter (\<lambda>kv. \<not> (fst kv \<in> set socks \<and> recv_closes env (fst kv))) (sockets ps1)"
          "wire w' = wire w1" "set (closed_socks w1) \<subseteq> set (closed_socks w')" by blast
    from tr rc u(1) ih(1) have a: "read_loop env (sock # socks) ps w = Return ps' w'"
      by (auto simp: recv_closes_def split: recv_res.splits)
    have b: "sockets ps' = filter (\<lambda>kv. \<not> (fst kv \<in> set (sock # socks) \<and> recv_closes env (fst kv))) (sockets ps)"
      unfolding ih(2) u(2) delete_as_filter filter_filter using rc
      by (intro filter_cong) auto
    from ih u have "wire w' = wire w" "set (closed_socks w) \<subseteq> set (closed_socks w')" by auto
    with a b show ?thesis by blast
  next
    case False
    from Cons.IH [of ps w] obtain ps' w' where
      ih: "read_loop env socks ps w = Return ps' w'"
          "sockets ps' = filter (\<lambda>kv. \<not> (fst kv \<in> set socks \<and> recv_closes env (fst kv))) (sockets ps)"
          "wire w' = wire w" "set (closed_socks w) \<subseteq> set (closed_socks w')" by blast
    from False ih(1) have a: "read_loop env (sock # socks) ps w = Return ps' w'"
      by (auto simp: recv_closes_def split: recv_res.splits)
    have b: "sockets ps' = filter (\<lambda>kv. \<not> (fst kv \<in> set (sock # socks) \<and> recv_closes env (fst kv))) (sockets ps)"
      unfolding ih(2) using False
      by (intro filter_cong) (auto simp: dict_keys_def)
    from a b ih show ?thesis by blast
  qed
qed

lemma delivered_append:
  assumes "distinct socks" "wire w' = wire w @ map (\<lambda>s. (s, f s)) socks"
  shows "delivered w' sock = delivered w sock @ (if sock \<in> set socks then f sock else [])"
proof -
  have "concat (map snd (filter (\<lambda>(s, bs). s = sock) (map (\<lambda>s. (s, f s)) socks)))
          = (if sock \<in> set socks then f sock else [])" if "distinct socks" for socks
    using that by (induction socks) auto
  with assms show ?thesis by (simp add: delivered_def)
qed

lemma map_of_filter_keep:
  "(\<And>v. P (t, v)) \<Longrightarrow> map_of (filter P al) t = map_of al t"
  by (induction al) auto

lemma sent_bytes_complete:
  assumes "\<forall>k. send_result env sock k \<noteq> Sent 0" "\<not> send_raises env sock data"
  shows "sent_bytes env sock data = data"
proof -
  from send_data_progress [OF assms(1), of data 0 0] obtain ok n where
    sd: "send_data (send_result env sock) data 0 0 = Some (ok, n)" "ok \<longrightarrow> length data \<le> n"
    by blast
  from send_raises_iff [OF sd(1)] assms(2) sd(2) show ?thesis by simp
qed

lemma transport_exact:
  assumes d: "distinct (dict_keys (sockets ps))"
    and s: "\<forall>sock \<in> set (dict_keys (sockets ps)). \<not> select_error env sock"
    and p: "\<forall>sock \<in> set (dict_keys (sockets ps)). writable env sock \<longrightarrow>
              (\<forall>k. send_result env sock k \<noteq> Sent 0)"
  shows "\<exists>ps' w'. transport env e ps w = Some (Return ps' w')
     \<and> sockets ps'
         = filter (\<lambda>kv. \<not> (readable env (fst kv) \<and> recv_closes env (fst kv)))
             (filter (\<lambda>kv. \<not> (writable env (fst kv)
                  \<and> send_raises env (fst kv) (take (chunk_size ps) (stdout_data env e))))
                (sockets ps))
     \<and> wire w' = wire w @ map (\<lambda>s. (s, sent_bytes env s (take (chunk_size ps) (stdout_data env e))))
                            (filter (writable env) (dict_keys (sockets ps)))
     \<and> {s \<in> set (dict_keys (sockets ps)). writable env s
            \<and> send_raises env s (take (chunk_size ps) (stdout_data env e))}
         \<subseteq> set (closed_socks w')"
proof -
  let ?data = "take (chunk_size ps) (stdout_data env e)"
  let ?socks = "dict_keys (sockets ps)"
  let ?W = "filter (writable env) ?socks"
  let ?R = "filter (readable env) ?socks"
  from d have dW: "distinct ?W" by simp
  have sW: "set ?W \<subseteq> set ?socks" by auto
  from p have pW: "\<forall>sock \<in> set ?W. \<forall>k. send_result env sock k \<noteq> Sent 0" by simp
  from write_loop_exact [OF dW sW d pW, of ?data w] obtain ps3 w3 where
    wl: "write_loop env ?data ?W ps w = Some (Return ps3 w3)"
        "sockets ps3 = filter (\<lambda>kv. \<not> (fst kv \<in> set ?W \<and> send_raises env (fst kv) ?data)) (sockets ps)"
        "wire w3 = wire w @ map (\<lambda>s. (s, sent_bytes env s ?data)) ?W"
        "set (closed_socks w3) = set (closed_socks w) \<union> {s \<in> set ?W. send_raises env s ?data}"
    by blast
  from read_loop_exact [of env ?R ps3 w3] obtain ps' w' where
    rl: "read_loop env ?R ps3 w3 = Return ps' w'"
        "sockets ps' = filter (\<lambda>kv. \<not> (fst kv \<in> set ?R \<and> recv_closes env (fst kv))) (sockets ps3)"
        "wire w' = wire w3" "set (closed_socks w3) \<subseteq> set (closed_socks w')"
    by blast
  from s wl(1) rl(1) have a: "transport env e ps w = Some (Return ps' w')"
    by (simp add: transport_def Let_def)
  have f1: "sockets ps3 = filter (\<lambda>kv. \<not> (writable env (fst kv) \<and> send_raises env (fst kv) ?data)) (sockets ps)"
    unfolding wl(2) by (intro filter_cong) (auto simp: dict_keys_def)
  have f2: "sockets ps' = filter (\<lambda>kv. \<not> (readable env (fst kv) \<and> recv_closes env (fst kv))) (sockets ps3)"
    unfolding rl(2) f1 by (intro filter_cong) (auto simp: dict_keys_def)
  from wl(4) rl(4) have c: "{s \<in> set ?socks. writable env s \<and> send_raises env s ?data} \<subseteq> set (closed_socks w')"
    by auto
  from a f1 f2 wl(3) rl(3) c show ?thesis by simp
qed

text \<open>
  Claim C1. In a tick whose \<^verbatim>\<open>select\<close> succeeds, with every \<^verbatim>\<open>send\<close> on a writable socket
  taking at least one byte or raising, \<open>communicate\<close> returns, and with \<open>data\<close> the chunk read
  from the encoder: every tracked socket reported writable whose \<^verbatim>\<open>_send_data\<close> does not
  raise has received exactly \<open>data\<close>, the same bytes for all of them; a writable socket whose
  \<^verbatim>\<open>_send_data\<close> raises is closed and no longer tracked; a socket not writable received
  nothing; and every socket whose own write did not raise and whose own read did not end it
  is tracked afterwards with the device it had.
\<close>

theorem tick_sends_same_chunk_to_writable_sockets:
  assumes d: "dict_wf ps"
    and s: "\<forall>sock \<in> set (dict_keys (sockets ps)). \<not> select_error env sock"
    and p: "\<forall>sock \<in> set (dict_keys (sockets ps)). writable env sock \<longrightarrow>
              (\<forall>k. send_result env sock k \<noteq> Sent 0)"
  shows "\<exists>ps' w' e data. communicate env ps w = Some (Return ps' w')
     \<and> encoder_process ps' = Some e
     \<and> data = take (chunk_size ps) (stdout_data env e)
     \<and> (\<forall>sock \<in> set (dict_keys (sockets ps)).
          (writable env sock \<and> \<not> send_raises env sock data \<longrightarrow>
             delivered w' sock = delivered w sock @ data)
          \<and> (writable env sock \<and> send_raises env sock data \<longrightarrow>
             sock \<notin> set (dict_keys (sockets ps')) \<and> sock \<in> set (closed_socks w'))
          \<and> (\<not> writable env sock \<longrightarrow> delivered w' sock = delivered w sock)
          \<and> (\<not> (writable env sock \<and> send_raises env sock data)
               \<and> \<not> (readable env sock \<and> recv_closes env sock) \<longrightarrow>
             map_of (sockets ps') sock = map_of (sockets ps) sock))"
proof -
  let ?ps2 = "fst (health_check env ps w)"
  let ?w2 = "snd (health_check env ps w)"
  from communicate_parts [of env ps w] obtain e where
    e: "encoder_process ?ps2 = Some e" and c: "communicate env ps w = transport env e ?ps2 ?w2"
    by blast
  note k = health_check_keeps [of env ps w]
  let ?data = "take (chunk_size ps) (stdout_data env e)"
  let ?socks = "dict_keys (sockets ps)"
  from d k have d2: "distinct (dict_keys (sockets ?ps2))" by (simp add: dict_wf_def)
  from s k have s2: "\<forall>sock \<in> set (dict_keys (sockets ?ps2)). \<not> select_error env sock" by simp
  from p k have p2: "\<forall>sock \<in> set (dict_keys (sockets ?ps2)). writable env sock \<longrightarrow>
              (\<forall>k. send_result env sock k \<noteq> Sent 0)" by simp
  from transport_exact [OF d2 s2 p2, of e ?w2] k obtain ps' w' where
    t: "transport env e ?ps2 ?w2 = Some (Return ps' w')" and
    so: "sockets ps' = filter (\<lambda>kv. \<not> (readable env (fst kv) \<and> recv_closes env (fst kv)))
             (filter (\<lambda>kv. \<not> (writable env (fst kv) \<and> send_raises env (fst kv) ?data)) (sockets ps))" and
    wi: "wire w' = wire w @ map (\<lambda>s. (s, sent_bytes env s ?data)) (filter (writable env) ?socks)" and
    cl: "{s \<in> set ?socks. writable env s \<and> send_raises env s ?data} \<subseteq> set (closed_socks w')"
    by auto
  from transport_frame [OF t] e have e': "encoder_process ps' = Some e"
    by (simp add: tick_frame_def)
  from d have dW: "distinct (filter (writable env) ?socks)" by (simp add: dict_wf_def)
  note dl = delivered_append [OF dW wi]
  have main: "(writable env sock \<and> \<not> send_raises env sock ?data \<longrightarrow>
             delivered w' sock = delivered w sock @ ?data)
          \<and> (writable env sock \<and> send_raises env sock ?data \<longrightarrow>
             sock \<notin> set (dict_keys (sockets ps')) \<and> sock \<in> set (closed_socks w'))
          \<and> (\<not> writable env sock \<longrightarrow> delivered w' sock = delivered w sock)
          \<and> (\<not> (writable env sock \<and> send_raises env sock ?data)
               \<and> \<not> (readable env sock \<and> recv_closes env sock) \<longrightarrow>
             map_of (sockets ps') sock = map_of (sockets ps) sock)"
    if m: "sock \<in> set ?socks" for sock
  proof (intro conjI impI)
    assume a: "writable env sock \<and> \<not> send_raises env sock ?data"
    with p m have "\<forall>k. send_result env sock k \<noteq> Sent 0" by blast
    from sent_bytes_complete [OF this] a have "sent_bytes env sock ?data = ?data" by blast
    with dl [of sock] a m show "delivered w' sock = delivered w sock @ ?data" by simp
  next
    assume a: "writable env sock \<and> send_raises env sock ?data"
    then show "sock \<notin> set (dict_keys (sockets ps'))"
      unfolding so by (auto simp: dict_keys_def)
    from a m cl show "sock \<in> set (closed_socks w')" by blast
  next
    assume "\<not> writable env sock"
    with dl [of sock] show "delivered w' sock = delivered w sock" by simp
  next
    assume "\<not> (writable env sock \<and> send_raises env sock ?data)
               \<and> \<not> (readable env sock \<and> recv_closes env sock)"
    then show "map_of (sockets ps') sock = map_of (sockets ps) sock"
      unfolding so filter_filter by (intro map_of_filter_keep) simp
  qed
  from c t e' main show ?thesis by auto
qed

theorem tick_sends_same_chunk_to_writable_sockets_witness:
  "\<not> send_raises flaky_env 7 ''abc'' \<and> send_raises flaky_env 8 ''abc''
   \<and> map_option (\<lambda>out. (dict_keys (sockets (outcome_stream out)),
                         delivered (outcome_world out) 7, delivered (outcome_world out) 8,
                         closed_socks (outcome_world out)))
        (communicate flaky_env two_clients_streaming world_streaming)
      = Some ([7], ''abcabc'', ''ab'', [8])
   \<and> delivered world_streaming 7 = ''abc''"
proof -
  have d: "dict_wf two_clients_streaming"
    by (simp add: dict_wf_def two_clients_streaming_def dict_keys_def)
  have k: "dict_keys (sockets two_clients_streaming) = [7, 8]"
    by (simp add: two_clients_streaming_def dict_keys_def)
  have s: "\<forall>sock \<in> set (dict_keys (sockets two_clients_streaming)). \<not> select_error flaky_env sock"
    by (simp add: flaky_env_def quiet_env_def)
  have p: "\<forall>sock \<in> set (dict_keys (sockets two_clients_streaming)). writable flaky_env sock \<longrightarrow>
              (\<forall>k. send_result flaky_env sock k \<noteq> Sent 0)"
    by (simp add: flaky_env_def quiet_env_def)
  have r7: "\<not> send_raises flaky_env 7 ''abc''" by code_simp
  have r8: "send_raises flaky_env 8 ''abc''" by code_simp
  have w7: "writable flaky_env 7" by (simp add: flaky_env_def quiet_env_def)
  have d0: "delivered world_streaming 7 = ''abc''" by (simp add: delivered_def world_streaming_def)
  have ev: "map_option (\<lambda>out. (dict_keys (sockets (outcome_stream out)),
                         delivered (outcome_world out) 7, delivered (outcome_world out) 8,
                         closed_socks (outcome_world out)))
        (communicate flaky_env two_clients_streaming world_streaming)
      = Some ([7], ''abcabc'', ''ab'', [8])" by code_simp
  from tick_sends_same_chunk_to_writable_sockets [OF d s p, of world_streaming]
  obtain ps' w' e data where
    c: "communicate flaky_env two_clients_streaming world_streaming = Some (Return ps' w')"
    and dt: "data = take (chunk_size two_clients_streaming) (stdout_data flaky_env e)"
    and a: "\<forall>sock \<in> set (dict_keys (sockets two_clients_streaming)).
          (writable flaky_env sock \<and> \<not> send_raises flaky_env sock data \<longrightarrow>
             delivered w' sock = delivered world_streaming sock @ data)
          \<and> (writable flaky_env sock \<and> send_raises flaky_env sock data \<longrightarrow>
             sock \<notin> set (dict_keys (sockets ps')) \<and> sock \<in> set (closed_socks w'))
          \<and> (\<not> writable flaky_env sock \<longrightarrow> delivered w' sock = delivered world_streaming sock)
          \<and> (\<not> (writable flaky_env sock \<and> send_raises flaky_env sock data)
               \<and> \<not> (readable flaky_env sock \<and> recv_closes flaky_env sock) \<longrightarrow>
             map_of (sockets ps') sock = map_of (sockets two_clients_streaming) sock)"
    by blast
  from dt have data: "data = ''abc''"
    by (simp add: flaky_env_def quiet_env_def two_clients_streaming_def one_client_streaming_def
          one_client_def example_stream_def ProcessStream_init_def)
  from a k data r7 w7 d0 have "delivered w' 7 = ''abcabc''" by simp
  with r7 r8 ev d0 show ?thesis by simp
qed

text \<open>
  The handles of a stream are spawned processes in every state a new stream reaches, so
  the hypothesis \<open>handles_valid\<close> of the next theorem holds wherever a tick can run.
\<close>

lemma health_check_valid:
  "handles_valid ps w \<Longrightarrow> handles_valid (fst (health_check env ps w)) (snd (health_check env ps w))"
  by (auto simp: health_check_def handles_valid_def create_processes_def cleanup_def
        kill_process_def Let_def split: option.splits)

lemma exec_call_valid:
  assumes "exec_call c ps w = Some out" "handles_valid ps w"
  shows "handles_valid (outcome_stream out) (outcome_world out)"
proof (cases c)
  case (Register b sock sn)
  with assms show ?thesis by (auto simp: register_def handles_valid_def Let_def)
next
  case (Unregister sock)
  with assms unregister_frame [of "[]" ps w sock] show ?thesis
    by (auto simp: handles_valid_def tick_frame_def)
next
  case (Tick env)
  show ?thesis
  proof (cases "is_running ps")
    case False
    with assms Tick show ?thesis by (auto simp: update_thread_step_def)
  next
    case True
    with assms Tick have c: "communicate env ps w = Some out" by (simp add: update_thread_step_def)
    from communicate_parts [of env ps w] c obtain e where
      t: "transport env e (fst (health_check env ps w)) (snd (health_check env ps w)) = Some out"
      by auto
    from transport_frame [OF t] health_check_valid [OF assms(2), of env]
    show ?thesis by (simp add: handles_valid_def tick_frame_def)
  qed
qed

lemma run_handles_valid:
  "run cs ps w = Some out \<Longrightarrow> handles_valid ps w \<Longrightarrow>
   handles_valid (outcome_stream out) (outcome_world out)"
proof (induction cs arbitrary: ps w)
  case Nil
  then show ?case by auto
next
  case (Cons c cs)
  from Cons.prems(1) obtain o1 where e: "exec_call c ps w = Some o1"
    by (auto split: option.splits)
  note k = exec_call_valid [OF e Cons.prems(2)]
  show ?case
  proof (cases o1)
    case (Return ps' w')
    with Cons.prems(1) e have "run cs ps' w' = Some out" by simp
    from Cons.IH [OF this] k Return show ?thesis by simp
  next
    case (Raise x ps' w')
    with Cons.prems(1) e have "out = o1" by simp
    with k show ?thesis by simp
  qed
qed

lemma new_stream_handles_valid: "handles_valid (ProcessStream_init p r e) w"
  by (simp add: handles_valid_def ProcessStream_init_def)



end
